theory Spec2Isabelle
  imports Main
begin

section \<open>Python values\<close>

text \<open>
  The exceptions that \<^verbatim>\<open>celeste_bot.py\<close> can meet. Its handlers name
  \<^verbatim>\<open>KeyError\<close>, \<^verbatim>\<open>IndexError\<close>, \<^verbatim>\<open>ValueError\<close>, the three Twitch exceptions
  (always caught together, so one constructor), \<^verbatim>\<open>HTTPError\<close> and the family of
  \<^verbatim>\<open>ConnectionError\<close>. Everything else is caught nowhere in the file: \<^verbatim>\<open>TypeError\<close>,
  \<^verbatim>\<open>OverflowError\<close>, and \<^verbatim>\<open>URLError\<close>, which is what \<^verbatim>\<open>urlopen\<close> raises when it cannot
  connect (a refused connection, a name that does not resolve): it wraps the
  \<^verbatim>\<open>OSError\<close> of the socket, and is a subclass neither of \<^verbatim>\<open>HTTPError\<close> nor of
  \<^verbatim>\<open>ConnectionError\<close>.
\<close>

datatype exn =
    KeyError | IndexError | ValueError | TypeError | OverflowError
  | TwitchException | HTTPError | ConnectionError | URLError | OtherError

definition bindE :: "exn + 'a \<Rightarrow> ('a \<Rightarrow> exn + 'b) \<Rightarrow> exn + 'b" where
  "bindE x f = (case x of Inl e \<Rightarrow> Inl e | Inr a \<Rightarrow> f a)"

text \<open>
  A Python \<^verbatim>\<open>float\<close> is a binary64 number: \<open>Finite m e\<close> stands for \<open>m * 2^e\<close>.
  \<open>float_round M e\<close> is the double nearest to \<open>M * 2^e\<close> (ties to even, 53 bits of
  precision, least exponent \<open>-1074\<close>, overflow to infinity).
\<close>

datatype pyfloat = Finite int int | Infinite bool | NaN

function bitlen :: "int \<Rightarrow> int" where
  "bitlen n = (if n \<le> 0 then 0 else 1 + bitlen (n div 2))"
  by pat_completeness auto
termination
  by (relation "measure nat") auto

declare bitlen.simps [simp del]

definition round_even :: "int \<Rightarrow> nat \<Rightarrow> int" where
  "round_even M k =
     (if k = 0 then M
      else let q = M div 2 ^ k; r = M mod 2 ^ k; h = 2 ^ (k - 1)
           in if h < r \<or> (r = h \<and> odd q) then q + 1 else q)"

definition mk_float :: "int \<Rightarrow> int \<Rightarrow> pyfloat" where
  "mk_float m e = (if 1024 < bitlen \<bar>m\<bar> + e then Infinite (m < 0) else Finite m e)"

definition float_round :: "int \<Rightarrow> int \<Rightarrow> pyfloat" where
  "float_round M e =
     (let k = max (bitlen \<bar>M\<bar> - 53) (- 1074 - e)
      in if k \<le> 0 then mk_float M e else mk_float (round_even M (nat k)) (e + k))"

text \<open>\<^verbatim>\<open>1000 * x\<close> for a float \<open>x\<close>: the exact product, rounded once.\<close>

fun mul1000 :: "pyfloat \<Rightarrow> pyfloat" where
  "mul1000 (Finite m e) = float_round (1000 * m) e"
| "mul1000 (Infinite s) = Infinite s"
| "mul1000 NaN = NaN"

text \<open>\<^verbatim>\<open>int(x)\<close> for a float \<open>x\<close> truncates towards zero.\<close>

fun int_of_float :: "pyfloat \<Rightarrow> exn + int" where
  "int_of_float (Finite m e) =
     Inr (if 0 \<le> e then m * 2 ^ nat e else sgn m * (\<bar>m\<bar> div 2 ^ nat (- e)))"
| "int_of_float (Infinite s) = Inl OverflowError"
| "int_of_float NaN = Inl ValueError"

text \<open>
  What \<^verbatim>\<open>json.loads\<close> returns. A \<open>JObj\<close> holds the items of a \<^verbatim>\<open>dict\<close>, one per key.
\<close>

datatype json =
    JNull | JBool bool | JInt int | JFloat pyfloat | JStr string
  | JArr "json list" | JObj "(string \<times> json) list"

text \<open>\<^verbatim>\<open>x[k]\<close> with a string key \<open>k\<close>.\<close>

fun getitem :: "json \<Rightarrow> string \<Rightarrow> exn + json" where
  "getitem (JObj kvs) k = (case map_of kvs k of None \<Rightarrow> Inl KeyError | Some v \<Rightarrow> Inr v)"
| "getitem _ k = Inl TypeError"

text \<open>\<^verbatim>\<open>for x in v\<close>: the elements of a list, the keys of a dict, the characters of a string.\<close>

fun py_iter :: "json \<Rightarrow> exn + json list" where
  "py_iter (JArr xs) = Inr xs"
| "py_iter (JObj kvs) = Inr (map (\<lambda>kv. JStr (fst kv)) kvs)"
| "py_iter (JStr s) = Inr (map (\<lambda>c. JStr [c]) s)"
| "py_iter _ = Inl TypeError"

text \<open>\<^verbatim>\<open>v == 0\<close>.\<close>

fun eq_zero :: "json \<Rightarrow> bool" where
  "eq_zero (JInt n) = (n = 0)"
| "eq_zero (JFloat (Finite m e)) = (m = 0)"
| "eq_zero (JBool b) = (\<not> b)"
| "eq_zero _ = False"

text \<open>\<^verbatim>\<open>1000 * v\<close>.\<close>

fun py_mul1000 :: "json \<Rightarrow> exn + json" where
  "py_mul1000 (JInt n) = Inr (JInt (1000 * n))"
| "py_mul1000 (JBool b) = Inr (JInt (if b then 1000 else 0))"
| "py_mul1000 (JFloat f) = Inr (JFloat (mul1000 f))"
| "py_mul1000 (JStr s) = Inr (JStr (concat (replicate 1000 s)))"
| "py_mul1000 (JArr xs) = Inr (JArr (concat (replicate 1000 xs)))"
| "py_mul1000 _ = Inl TypeError"

text \<open>
  \<^verbatim>\<open>int(v)\<close>. Reading an integer out of a string is the library's business: it is the
  parameter \<open>parse\<close>, \<open>None\<close> where \<^verbatim>\<open>int\<close> raises \<^verbatim>\<open>ValueError\<close>.
\<close>

fun py_int :: "(string \<Rightarrow> int option) \<Rightarrow> json \<Rightarrow> exn + int" where
  "py_int parse (JInt n) = Inr n"
| "py_int parse (JBool b) = Inr (if b then 1 else 0)"
| "py_int parse (JFloat f) = int_of_float f"
| "py_int parse (JStr s) = (case parse s of None \<Rightarrow> Inl ValueError | Some n \<Rightarrow> Inr n)"
| "py_int parse _ = Inl TypeError"

text \<open>\<^verbatim>\<open>needle in hay\<close> on strings, and \<^verbatim>\<open>s.split(c)\<close>.\<close>

fun contains :: "string \<Rightarrow> string \<Rightarrow> bool" where
  "contains needle [] = (needle = [])"
| "contains needle (h # t) = (take (length needle) (h # t) = needle \<or> contains needle t)"

fun split_on :: "char \<Rightarrow> string \<Rightarrow> string list" where
  "split_on c [] = [[]]"
| "split_on c (x # xs) =
     (if x = c then [] # split_on c xs
      else (case split_on c xs of [] \<Rightarrow> [[x]] | y # ys \<Rightarrow> (x # y) # ys))"

text \<open>\<^verbatim>\<open>xs[i]\<close> on a list.\<close>

definition index :: "'a list \<Rightarrow> nat \<Rightarrow> exn + 'a" where
  "index xs i = (if i < length xs then Inr (xs ! i) else Inl IndexError)"

text \<open>\<^verbatim>\<open>sep.join(xs)\<close>.\<close>

fun join :: "string \<Rightarrow> string list \<Rightarrow> string" where
  "join sep [] = []"
| "join sep [x] = x"
| "join sep (x # y # ys) = x @ sep @ join sep (y # ys)"

section \<open>The bot's constants\<close>

definition QUERY_TABLE :: "string list" where
  "QUERY_TABLE =
     [''game'', ''category'', ''level'', ''platform'', ''region'',
      ''emulated'', ''date'', ''submitted'', ''status'', ''verify-date'']"

text \<open>\<^verbatim>\<open>QUERY_TABLE[q]\<close>: the table is a dict with the keys 0 to 9.\<close>

definition query_field :: "nat \<Rightarrow> exn + string" where
  "query_field q = (if q < length QUERY_TABLE then Inr (QUERY_TABLE ! q) else Inl KeyError)"

datatype SubmissionErrors =
    ERROR_SUBMITTED_RTA | ERROR_NO_VERSION | ERROR_INVALID_IGT
  | ERROR_INVALID_VERSION | ERROR_BAD_VOD

definition ACCOUNT_NAME :: string where
  "ACCOUNT_NAME = ''BadelineBot''"

definition BASE_REASON :: "string \<Rightarrow> string" where
  "BASE_REASON x =
     ACCOUNT_NAME @ '' found the following problem'' @ x
       @ '' with your submission, please edit it accordingly: ''"

fun REASON_TEXT :: "SubmissionErrors \<Rightarrow> string" where
  "REASON_TEXT ERROR_SUBMITTED_RTA =
     ''Your submission has real-time, leave the real-time column empty''"
| "REASON_TEXT ERROR_NO_VERSION =
     ''You did not select a version, make sure to select the correct game version''"
| "REASON_TEXT ERROR_INVALID_IGT =
     ''Your submission has an invalid IGT, check the final time of your run and adjust the submission''"
| "REASON_TEXT ERROR_INVALID_VERSION =
     ''The version you selected does not exist on your platform, please select the correct game version''"
| "REASON_TEXT ERROR_BAD_VOD =
     ''The video you submitted is a Twitch past broadcast that will be deleted after a while, please highlight your run''"

definition GENERIC_REASON :: string where
  "GENERIC_REASON =
     ACCOUNT_NAME @ '' found various issues with your submission, please read the rules or contact a moderator/verifier.''"

text \<open>The reason sent with a rejection (lines 197 to 203 of \<^verbatim>\<open>main\<close>).\<close>

definition full_reason :: "SubmissionErrors list \<Rightarrow> string" where
  "full_reason faults =
     (let x = (if 1 < length faults then ''s'' else [])
      in if length faults < 3
         then BASE_REASON x @ join '' || '' (map REASON_TEXT faults)
         else GENERIC_REASON)"

section \<open>Configuration, the outside world, the trace\<close>

text \<open>
  One entry of \<^verbatim>\<open>self.GAMES\<close>: \<^verbatim>\<open>game["id"]\<close> and the keyword arguments
  \<^verbatim>\<open>game["version"]\<close>. The configuration is read outside \<^verbatim>\<open>celeste_bot.py\<close>; its
  shape is the one the rule predicates ask for: \<^verbatim>\<open>invalid_ver\<close> maps a platform id
  to the list of the option ids that do not exist there.
\<close>

record game =
  game_id :: string
  variable_id :: string
  default_ver :: string
  invalid_ver :: "(string \<times> string list) list"

text \<open>The parts of the GET request's URL that vary.\<close>

datatype request =
  Request (req_game: string) (req_direction: string) (req_orderby: string) (req_max: int)

datatype log_line =
    PlatformError json | TwitchError | OAuthError
  | Found json "SubmissionErrors list" | Rejected json
  | HTTPErrorLine | ConnectionErrorLine

text \<open>
  The trace of a run: every call that leaves the process, with its answer, and every
  line printed. \<open>Check i\<close> and \<open>Faults i fs\<close> are no calls: they mark that the validity
  checks (lines 172 to 190) were started for the run with id \<open>i\<close>, and that they
  ended with the fault list \<open>fs\<close>.
\<close>

datatype event =
    OAuth "exn option"
  | Get request "exn + json"
  | Check json
  | Faults json "SubmissionErrors list"
  | Videos int "exn + json list"
  | Put json string "exn option"
  | Print log_line

text \<open>
  The collaborators, over a world \<open>'w\<close> that each call may change:
  \<^verbatim>\<open>urlparse\<close> (giving \<^verbatim>\<open>netloc\<close> and \<^verbatim>\<open>path\<close>), \<^verbatim>\<open>int\<close> on a string,
  \<^verbatim>\<open>TTV_CLIENT.get_oauth\<close>, \<^verbatim>\<open>TTV_CLIENT.get_videos\<close>, \<^verbatim>\<open>urlopen\<close> of the GET
  request with \<^verbatim>\<open>read\<close> and \<^verbatim>\<open>json.loads\<close>, \<^verbatim>\<open>urlopen\<close> of the PUT request (run id
  and reason), and the random generator: \<open>random53\<close> draws the 53-bit numerator \<open>k\<close>
  of \<^verbatim>\<open>random()\<close> \<open>= k / 2^53\<close>, \<open>randbelow n\<close> draws below \<open>n\<close>
  (\<^verbatim>\<open>randint(a, b)\<close> is \<^verbatim>\<open>a + randbelow(b - a + 1)\<close>).
\<close>

record 'w env =
  urlparse :: "json \<Rightarrow> exn + (string \<times> string)"
  parse_int :: "string \<Rightarrow> int option"
  get_oauth :: "'w \<Rightarrow> exn option \<times> 'w"
  get_videos :: "int \<Rightarrow> 'w \<Rightarrow> (exn + json list) \<times> 'w"
  urlopen_get :: "request \<Rightarrow> 'w \<Rightarrow> (exn + json) \<times> 'w"
  urlopen_put :: "json \<Rightarrow> string \<Rightarrow> 'w \<Rightarrow> exn option \<times> 'w"
  random53 :: "'w \<Rightarrow> int \<times> 'w"
  randbelow :: "int \<Rightarrow> 'w \<Rightarrow> int \<times> 'w"

text \<open>
  The state of a cycle: the locals \<^verbatim>\<open>cache\<close> and \<^verbatim>\<open>rejected\<close> of \<^verbatim>\<open>main\<close>,
  \<^verbatim>\<open>self.q_counter\<close>, the world and the trace so far.
\<close>

record 'w st =
  cache :: "json list"
  rejected :: "json list"
  q_counter :: nat
  world :: 'w
  events :: "event list"

definition emit :: "event \<Rightarrow> 'w st \<Rightarrow> 'w st" where
  "emit e s = s\<lparr>events := events s @ [e]\<rparr>"

section \<open>The rule predicates\<close>

definition valid_real_time :: "json \<Rightarrow> exn + bool" where
  "valid_real_time run =
     bindE (getitem run ''times'') (\<lambda>times.
     bindE (getitem times ''realtime_t'') (\<lambda>t.
     Inr (eq_zero t)))"

definition valid_default_version :: "json \<Rightarrow> game \<Rightarrow> exn + bool" where
  "valid_default_version run g =
     bindE (getitem run ''values'') (\<lambda>vals.
     bindE (getitem vals (variable_id g)) (\<lambda>v.
     Inr (\<not> (v = JStr (default_ver g)))))"

definition valid_in_game_time :: "'w env \<Rightarrow> json \<Rightarrow> exn + bool" where
  "valid_in_game_time env run =
     bindE (getitem run ''times'') (\<lambda>times.
     bindE (getitem times ''ingame_t'') (\<lambda>t.
     bindE (py_mul1000 t) (\<lambda>p.
     bindE (py_int (parse_int env) p) (\<lambda>n.
     Inr (n mod 17 = 0)))))"

text \<open>
  \<^verbatim>\<open>invalid_ver[p]\<close>: the keys are strings, so no other hashable value is a key, and a
  list or a dict is not hashable.
\<close>

fun invalid_ver_item :: "(string \<times> string list) list \<Rightarrow> json \<Rightarrow> exn + string list" where
  "invalid_ver_item kvs (JStr p) =
     (case map_of kvs p of None \<Rightarrow> Inl KeyError | Some vs \<Rightarrow> Inr vs)"
| "invalid_ver_item kvs (JArr xs) = Inl TypeError"
| "invalid_ver_item kvs (JObj xs) = Inl TypeError"
| "invalid_ver_item kvs _ = Inl KeyError"

text \<open>\<^verbatim>\<open>v in vs\<close> for a list \<open>vs\<close> of strings.\<close>

fun in_strings :: "json \<Rightarrow> string list \<Rightarrow> bool" where
  "in_strings (JStr v) vs = (v \<in> set vs)"
| "in_strings _ vs = False"

definition platform_of :: "json \<Rightarrow> exn + json" where
  "platform_of run = bindE (getitem run ''system'') (\<lambda>sys. getitem sys ''platform'')"

definition valid_existing_version :: "json \<Rightarrow> game \<Rightarrow> 'w st \<Rightarrow> (exn + bool) \<times> 'w st" where
  "valid_existing_version run g s =
     (case bindE (getitem run ''values'') (\<lambda>vals.
           bindE (getitem vals (variable_id g)) (\<lambda>v.
           bindE (platform_of run) (\<lambda>p.
           bindE (invalid_ver_item (invalid_ver g) p) (\<lambda>vs.
           Inr (\<not> in_strings v vs))))) of
        Inr b \<Rightarrow> (Inr b, s)
      | Inl e \<Rightarrow>
          if e = KeyError
          then (case platform_of run of
                  Inl e' \<Rightarrow> (Inl e', s)
                | Inr p \<Rightarrow> (Inr True, emit (Print (PlatformError p)) s))
          else (Inl e, s))"

text \<open>The loop of lines 104 to 109: the first link whose \<^verbatim>\<open>netloc\<close> contains \<^verbatim>\<open>twitch.tv\<close>.\<close>

fun first_twitch :: "'w env \<Rightarrow> json list \<Rightarrow> exn + (string \<times> string) option" where
  "first_twitch env [] = Inr None"
| "first_twitch env (x # xs) =
     bindE (getitem x ''uri'') (\<lambda>u.
     bindE (urlparse env u) (\<lambda>par.
     if contains ''twitch.tv'' (fst par) then Inr (Some par) else first_twitch env xs))"

text \<open>Lines 115 to 120, without their handlers.\<close>

definition lookup_video :: "'w env \<Rightarrow> string \<Rightarrow> 'w st \<Rightarrow> (exn + bool) \<times> 'w st" where
  "lookup_video env path s =
     (case bindE (index (split_on CHR ''/'' path) 2) (\<lambda>seg.
           case parse_int env seg of None \<Rightarrow> Inl ValueError | Some n \<Rightarrow> Inr n) of
        Inl e \<Rightarrow> (Inl e, s)
      | Inr vid_id \<Rightarrow>
          (let (res, w) = get_videos env vid_id (world s);
               s' = emit (Videos vid_id res) (s\<lparr>world := w\<rparr>)
           in (bindE res (\<lambda>vids.
               bindE (index vids 0) (\<lambda>vid_data.
               bindE (getitem vid_data ''type'') (\<lambda>ty.
               Inr (\<not> (ty = JStr ''archive''))))), s')))"

definition inner_handlers :: "(exn + bool) \<times> 'w st \<Rightarrow> (exn + bool) \<times> 'w st" where
  "inner_handlers rs =
     (case fst rs of
        Inl e \<Rightarrow> if e = IndexError \<or> e = ValueError then (Inr True, snd rs) else rs
      | Inr b \<Rightarrow> rs)"

definition outer_handlers :: "(exn + bool) \<times> 'w st \<Rightarrow> (exn + bool) \<times> 'w st" where
  "outer_handlers rs =
     (case fst rs of
        Inl e \<Rightarrow>
          if e = KeyError then (Inr False, snd rs)
          else if e = TwitchException then (Inr True, emit (Print TwitchError) (snd rs))
          else rs
      | Inr b \<Rightarrow> rs)"

definition valid_persistent_vod :: "'w env \<Rightarrow> json \<Rightarrow> 'w st \<Rightarrow> (exn + bool) \<times> 'w st" where
  "valid_persistent_vod env run s =
     outer_handlers
       (case bindE (getitem run ''videos'') (\<lambda>videos.
             bindE (getitem videos ''links'') (\<lambda>link_list.
             bindE (py_iter link_list) (first_twitch env))) of
          Inl e \<Rightarrow> (Inl e, s)
        | Inr None \<Rightarrow> (Inr True, s)
        | Inr (Some par) \<Rightarrow> inner_handlers (lookup_video env (snd par) s))"

section \<open>One cycle: \<^verbatim>\<open>main\<close>\<close>

text \<open>Lines 176 to 190: the five checks in their order, each adding its fault.\<close>

definition fault_if_not :: "bool \<Rightarrow> SubmissionErrors \<Rightarrow> SubmissionErrors list" where
  "fault_if_not valid f = (if valid then [] else [f])"

definition check_run ::
  "'w env \<Rightarrow> game \<Rightarrow> json \<Rightarrow> 'w st \<Rightarrow> (exn + SubmissionErrors list) \<times> 'w st" where
  "check_run env g run s =
     (case valid_real_time run of
        Inl e \<Rightarrow> (Inl e, s)
      | Inr b1 \<Rightarrow>
     (case valid_default_version run g of
        Inl e \<Rightarrow> (Inl e, s)
      | Inr b2 \<Rightarrow>
     (case valid_in_game_time env run of
        Inl e \<Rightarrow> (Inl e, s)
      | Inr b3 \<Rightarrow>
     (case valid_existing_version run g s of
        (Inl e, s1) \<Rightarrow> (Inl e, s1)
      | (Inr b4, s1) \<Rightarrow>
     (case valid_persistent_vod env run s1 of
        (Inl e, s2) \<Rightarrow> (Inl e, s2)
      | (Inr b5, s2) \<Rightarrow>
          (Inr (fault_if_not b1 ERROR_SUBMITTED_RTA @ fault_if_not b2 ERROR_NO_VERSION
                @ fault_if_not b3 ERROR_INVALID_IGT @ fault_if_not b4 ERROR_INVALID_VERSION
                @ fault_if_not b5 ERROR_BAD_VOD), s2))))))"

text \<open>
  Lines 162 to 193: the loop over the fetched runs. \<^verbatim>\<open>in\<close> on the two id lists is
  equality of the ids, which the API sends as strings.
\<close>

fun scan_runs ::
  "'w env \<Rightarrow> game \<Rightarrow> json list \<Rightarrow> json list \<Rightarrow> json list
     \<Rightarrow> (json \<times> SubmissionErrors list) list \<Rightarrow> 'w st
     \<Rightarrow> (exn + (json \<times> SubmissionErrors list) list) \<times> 'w st" where
  "scan_runs env g ignore already_rejected [] faulty_runs s = (Inr faulty_runs, s)"
| "scan_runs env g ignore already_rejected (this_run # rest) faulty_runs s =
     (case getitem this_run ''id'' of
        Inl e \<Rightarrow> (Inl e, s)
      | Inr i \<Rightarrow>
          if i \<in> set already_rejected
          then scan_runs env g ignore already_rejected rest faulty_runs
                 (s\<lparr>rejected := rejected s @ [i]\<rparr>)
          else if i \<in> set ignore
          then scan_runs env g ignore already_rejected rest faulty_runs
                 (s\<lparr>cache := cache s @ [i]\<rparr>)
          else (case check_run env g this_run (emit (Check i) (s\<lparr>cache := cache s @ [i]\<rparr>)) of
                  (Inl e, s2) \<Rightarrow> (Inl e, s2)
                | (Inr faults, s2) \<Rightarrow>
                    scan_runs env g ignore already_rejected rest
                      (if 0 < length faults then faulty_runs @ [(i, faults)] else faulty_runs)
                      (emit (Faults i faults) s2)))"

text \<open>Lines 195 to 223: one PUT request for each entry of \<^verbatim>\<open>faulty_runs\<close>.\<close>

fun reject_runs ::
  "'w env \<Rightarrow> (json \<times> SubmissionErrors list) list \<Rightarrow> 'w st \<Rightarrow> (exn + unit) \<times> 'w st" where
  "reject_runs env [] s = (Inr (), s)"
| "reject_runs env (this_run # rest) s =
     (let i = fst this_run; faults = snd this_run;
          reason = full_reason faults;
          s1 = emit (Print (Found i faults)) s;
          res = urlopen_put env i reason (world s1);
          s2 = emit (Put i reason (fst res)) (s1\<lparr>world := snd res\<rparr>)
      in case fst res of
           Some e \<Rightarrow> (Inl e, s2)
         | None \<Rightarrow> reject_runs env rest (emit (Print (Rejected i)) (s2\<lparr>rejected := rejected s2 @ [i]\<rparr>)))"

definition process_runs ::
  "'w env \<Rightarrow> game \<Rightarrow> json list \<Rightarrow> json list \<Rightarrow> json list \<Rightarrow> 'w st \<Rightarrow> (exn + unit) \<times> 'w st" where
  "process_runs env g ignore already_rejected new_runs s =
     (case scan_runs env g ignore already_rejected new_runs [] s of
        (Inl e, s1) \<Rightarrow> (Inl e, s1)
      | (Inr faulty_runs, s1) \<Rightarrow> reject_runs env faulty_runs s1)"

text \<open>
  Lines 151 to 160: the request and its answer. \<^verbatim>\<open>random() < 0.5\<close> is \<open>k < 2^52\<close> for
  the numerator \<open>k\<close>; \<^verbatim>\<open>randint(100, 200)\<close> is \<open>100 + j\<close> for the draw \<open>j\<close> below 101. The
  draws of the world are brought into their range.
\<close>

definition rand_d :: "int \<Rightarrow> string" where
  "rand_d k = (if k mod 2 ^ 53 < 2 ^ 52 then ''desc'' else ''asc'')"

definition randint_100_200 :: "int \<Rightarrow> int" where
  "randint_100_200 j = 100 + j mod 101"

definition fetch_runs :: "'w env \<Rightarrow> game \<Rightarrow> 'w st \<Rightarrow> (exn + json list) \<times> 'w st" where
  "fetch_runs env g s =
     (let r1 = random53 env (world s)
      in case query_field (q_counter s) of
           Inl e \<Rightarrow> (Inl e, s\<lparr>world := snd r1\<rparr>)
         | Inr field \<Rightarrow>
             (let r2 = randbelow env 101 (snd r1);
                  req = Request (game_id g) (rand_d (fst r1)) field (randint_100_200 (fst r2));
                  r3 = urlopen_get env req (snd r2);
                  s' = emit (Get req (fst r3)) (s\<lparr>world := snd r3\<rparr>)
              in (bindE (fst r3) (\<lambda>body. bindE (getitem body ''data'') py_iter), s')))"

definition game_body ::
  "'w env \<Rightarrow> json list \<Rightarrow> json list \<Rightarrow> game \<Rightarrow> 'w st \<Rightarrow> (exn + unit) \<times> 'w st" where
  "game_body env ignore already_rejected g s =
     (case fetch_runs env g s of
        (Inl e, s1) \<Rightarrow> (Inl e, s1)
      | (Inr new_runs, s1) \<Rightarrow> process_runs env g ignore already_rejected new_runs s1)"

text \<open>
  How the loop over the games ends: it ran through, it left by \<^verbatim>\<open>break\<close> from one of
  the two handlers, or an exception that no handler names left \<^verbatim>\<open>main\<close>.
\<close>

datatype outcome = Completed | Aborted exn | Crashed exn

text \<open>
  The two handlers (lines 225 to 235). \<^verbatim>\<open>list(set(xs))\<close> keeps one copy of each
  element, in an order Python does not promise: \<open>remdups\<close> is one such list, and the
  properties below speak of its elements only. (The ids are strings, hence hashable.)
\<close>

definition abort_cycle :: "log_line \<Rightarrow> json list \<Rightarrow> json list \<Rightarrow> 'w st \<Rightarrow> 'w st" where
  "abort_cycle line ignore already_rejected s =
     (emit (Print line) s)
       \<lparr>cache := remdups (cache s @ ignore),
        rejected := remdups (rejected s @ already_rejected)\<rparr>"

fun games_loop ::
  "'w env \<Rightarrow> json list \<Rightarrow> json list \<Rightarrow> game list \<Rightarrow> 'w st \<Rightarrow> outcome \<times> 'w st" where
  "games_loop env ignore already_rejected [] s = (Completed, s)"
| "games_loop env ignore already_rejected (g # gs) s =
     (case game_body env ignore already_rejected g s of
        (Inr u, s1) \<Rightarrow> games_loop env ignore already_rejected gs s1
      | (Inl e, s1) \<Rightarrow>
          if e = HTTPError
          then (Aborted e, abort_cycle HTTPErrorLine ignore already_rejected s1)
          else if e = ConnectionError
          then (Aborted e, abort_cycle ConnectionErrorLine ignore already_rejected s1)
          else (Crashed e, s1))"

text \<open>Lines 142 to 146: the new OAuth token.\<close>

definition refresh_oauth :: "'w env \<Rightarrow> 'w st \<Rightarrow> exn option \<times> 'w st" where
  "refresh_oauth env s =
     (let r = get_oauth env (world s);
          s1 = emit (OAuth (fst r)) (s\<lparr>world := snd r\<rparr>)
      in case fst r of
           None \<Rightarrow> (None, s1)
         | Some e \<Rightarrow>
             if e = TwitchException then (None, emit (Print OAuthError) s1) else (Some e, s1))"

text \<open>
  \<^verbatim>\<open>main\<close>. The state it returns holds in \<open>cache\<close> and \<open>rejected\<close> the two lists that
  line 238 hands to the next call as \<^verbatim>\<open>ignore\<close> and \<^verbatim>\<open>already_rejected\<close>.
\<close>

definition main ::
  "'w env \<Rightarrow> game list \<Rightarrow> json list \<Rightarrow> json list \<Rightarrow> 'w st \<Rightarrow> outcome \<times> 'w st" where
  "main env games ignore already_rejected s =
     (case refresh_oauth env (s\<lparr>cache := [], rejected := []\<rparr>) of
        (Some e, s1) \<Rightarrow> (Crashed e, s1)
      | (None, s1) \<Rightarrow>
          (case games_loop env ignore already_rejected games s1 of
             (Crashed e, s2) \<Rightarrow> (Crashed e, s2)
           | (out, s2) \<Rightarrow> (out, s2\<lparr>q_counter := (q_counter s2 + 1) mod length QUERY_TABLE\<rparr>)))"

text \<open>
  \<^verbatim>\<open>start\<close> and the timer: \<open>n\<close> calls of \<^verbatim>\<open>main\<close>, each with the lists of the one
  before; an exception that leaves \<^verbatim>\<open>main\<close> ends the chain.
\<close>

fun cycles ::
  "nat \<Rightarrow> 'w env \<Rightarrow> game list \<Rightarrow> json list \<Rightarrow> json list \<Rightarrow> 'w st \<Rightarrow> exn option \<times> 'w st" where
  "cycles 0 env games ignore already_rejected s = (None, s)"
| "cycles (Suc n) env games ignore already_rejected s =
     (case main env games ignore already_rejected s of
        (Crashed e, s') \<Rightarrow> (Some e, s')
      | (out, s') \<Rightarrow> cycles n env games (cache s') (rejected s') s')"

definition init :: "'w \<Rightarrow> 'w st" where
  "init w = \<lparr>cache = [], rejected = [], q_counter = 0, world = w, events = []\<rparr>"

definition start :: "nat \<Rightarrow> 'w env \<Rightarrow> game list \<Rightarrow> 'w \<Rightarrow> exn option \<times> 'w st" where
  "start n env games w = cycles n env games [] [] (init w)"

text \<open>What a step added to the trace.\<close>

definition new_events :: "'w st \<Rightarrow> 'w st \<Rightarrow> event list" where
  "new_events s s' = drop (length (events s)) (events s')"

section \<open>Reading the trace\<close>

text \<open>The ids of the runs of a fetched list (a run without \<^verbatim>\<open>"id"\<close> has none).\<close>

definition run_ids :: "json list \<Rightarrow> json list" where
  "run_ids runs = concat (map (\<lambda>r. case getitem r ''id'' of Inl e \<Rightarrow> [] | Inr i \<Rightarrow> [i]) runs)"

text \<open>The runs that a GET request brought, and the ids that the source listed in a trace.\<close>

fun fetched :: "event \<Rightarrow> json list" where
  "fetched (Get req (Inr body)) =
     (case bindE (getitem body ''data'') py_iter of Inl e \<Rightarrow> [] | Inr runs \<Rightarrow> runs)"
| "fetched _ = []"

definition listed :: "event list \<Rightarrow> json list" where
  "listed es = run_ids (concat (map fetched es))"

text \<open>
  The requests sent, the ids whose validity checks were started, the fault lists the
  checks ended with, and the reject calls (id, reason, answer), each in the order of
  the trace.
\<close>

fun get_of :: "event \<Rightarrow> request list" where
  "get_of (Get req res) = [req]"
| "get_of _ = []"

fun check_of :: "event \<Rightarrow> json list" where
  "check_of (Check i) = [i]"
| "check_of _ = []"

fun faults_of :: "event \<Rightarrow> (json \<times> SubmissionErrors list) list" where
  "faults_of (Faults i fs) = [(i, fs)]"
| "faults_of _ = []"

fun put_of :: "event \<Rightarrow> (json \<times> string \<times> exn option) list" where
  "put_of (Put i reason res) = [(i, reason, res)]"
| "put_of _ = []"

definition gets :: "event list \<Rightarrow> request list" where
  "gets es = concat (map get_of es)"

definition checks :: "event list \<Rightarrow> json list" where
  "checks es = concat (map check_of es)"

definition faults :: "event list \<Rightarrow> (json \<times> SubmissionErrors list) list" where
  "faults es = concat (map faults_of es)"

definition puts :: "event list \<Rightarrow> (json \<times> string \<times> exn option) list" where
  "puts es = concat (map put_of es)"

text \<open>The entries of \<^verbatim>\<open>faulty_runs\<close>: the checked runs with at least one fault.\<close>

definition faulty :: "(json \<times> SubmissionErrors list) list \<Rightarrow> (json \<times> SubmissionErrors list) list" where
  "faulty xs = filter (\<lambda>x. snd x \<noteq> []) xs"

definition reject_call :: "json \<times> SubmissionErrors list \<Rightarrow> json \<times> string \<times> exn option" where
  "reject_call x = (fst x, full_reason (snd x), None)"

text \<open>
  \<open>extends s s'\<close>: the trace of \<open>s'\<close> is the trace of \<open>s\<close> and what came after it.
  \<open>silent es\<close>: no request, no validity check and no reject call in \<open>es\<close>.
  \<open>quiet_step s s'\<close>: from \<open>s\<close> to \<open>s'\<close> only the world and a silent piece of trace.
\<close>

definition extends :: "'w st \<Rightarrow> 'w st \<Rightarrow> bool" where
  "extends s s' \<longleftrightarrow> events s' = events s @ new_events s s'"

definition silent :: "event list \<Rightarrow> bool" where
  "silent es \<longleftrightarrow> gets es = [] \<and> checks es = [] \<and> faults es = [] \<and> puts es = []"

definition quiet_step :: "'w st \<Rightarrow> 'w st \<Rightarrow> bool" where
  "quiet_step s s' \<longleftrightarrow>
     extends s s' \<and> silent (new_events s s') \<and> cache s' = cache s
       \<and> rejected s' = rejected s \<and> q_counter s' = q_counter s"

text \<open>What every request of a cycle that starts in \<open>s\<close> looks like.\<close>

definition good_request :: "'w st \<Rightarrow> game \<Rightarrow> request \<Rightarrow> bool" where
  "good_request s g req \<longleftrightarrow>
     q_counter s < length QUERY_TABLE \<and> req_orderby req = QUERY_TABLE ! q_counter s
     \<and> req_game req = game_id g
     \<and> (req_direction req = ''desc'' \<or> req_direction req = ''asc'')
     \<and> 100 \<le> req_max req \<and> req_max req \<le> 200"

text \<open>What holds of the trace of one or more games, however they end.\<close>

definition trace_ok :: "json list \<Rightarrow> json list \<Rightarrow> game list \<Rightarrow> 'w st \<Rightarrow> event list \<Rightarrow> bool" where
  "trace_ok ig ar gs s es \<longleftrightarrow>
     (\<forall>req \<in> set (gets es). \<exists>g \<in> set gs. good_request s g req)
     \<and> (\<forall>i \<in> set (checks es). i \<notin> set ig \<and> i \<notin> set ar)
     \<and> (\<forall>x \<in> set (faults es). fst x \<notin> set ig \<and> fst x \<notin> set ar)
     \<and> (\<forall>p \<in> set (puts es). fst p \<notin> set ig \<and> fst p \<notin> set ar
           \<and> (\<exists>x \<in> set (faulty (faults es)). fst p = fst x \<and> fst (snd p) = full_reason (snd x)))"

text \<open>
  The data and the collaborator that the video rule can cope with: links that are
  objects whose URI, if they have one, \<^verbatim>\<open>urlparse\<close> reads; and a video lookup that
  fails, if it fails, with an exception that the handlers of \<^verbatim>\<open>valid_persistent_vod\<close>
  name, and that answers with objects.
\<close>

definition readable_links :: "'w env \<Rightarrow> json list \<Rightarrow> bool" where
  "readable_links env links \<longleftrightarrow>
     (\<forall>x \<in> set links. (\<exists>kvs. x = JObj kvs)
        \<and> (\<forall>u. getitem x ''uri'' = Inr u \<longrightarrow> (\<exists>par. urlparse env u = Inr par)))"

definition handled_lookup :: "'w env \<Rightarrow> bool" where
  "handled_lookup env \<longleftrightarrow>
     (\<forall>vid w. case fst (get_videos env vid w) of
        Inl e \<Rightarrow> e = KeyError \<or> e = IndexError \<or> e = ValueError \<or> e = TwitchException
      | Inr vids \<Rightarrow> (\<forall>v \<in> set vids. \<exists>kvs. v = JObj kvs))"

section \<open>A small world for examples\<close>

text \<open>
  Stand-ins for the two library functions, enough for the examples below:
  \<open>simple_urlparse\<close> reads URIs of the shape \<^verbatim>\<open>scheme://netloc/path\<close>, and
  \<open>decimal\<close> reads a string of digits.
\<close>

fun after_slashes :: "string \<Rightarrow> string" where
  "after_slashes (a # b # rest) =
     (if a = CHR ''/'' \<and> b = CHR ''/'' then rest else after_slashes (b # rest))"
| "after_slashes _ = []"

definition simple_urlparse :: "json \<Rightarrow> exn + (string \<times> string)" where
  "simple_urlparse u =
     (case u of
        JStr uri \<Rightarrow>
          (let rest = after_slashes uri
           in Inr (takeWhile (\<lambda>c. c \<noteq> CHR ''/'') rest, dropWhile (\<lambda>c. c \<noteq> CHR ''/'') rest))
      | _ \<Rightarrow> Inl TypeError)"

definition digit_value :: "char \<Rightarrow> int option" where
  "digit_value c = map_of (zip ''0123456789'' [0, 1, 2, 3, 4, 5, 6, 7, 8, 9]) c"

fun decimal_acc :: "int \<Rightarrow> string \<Rightarrow> int option" where
  "decimal_acc n [] = Some n"
| "decimal_acc n (c # cs) =
     (case digit_value c of None \<Rightarrow> None | Some d \<Rightarrow> decimal_acc (10 * n + d) cs)"

definition decimal :: "string \<Rightarrow> int option" where
  "decimal s = (if s = [] then None else decimal_acc 0 s)"

text \<open>
  A world without memory: the submission source answers each game id with a fixed body,
  the video collaborator each video id with a fixed list, every PUT and the token
  refresh succeed, and the random generator draws \<open>k\<close> and \<open>j\<close>.
\<close>

definition fixed_env ::
  "(string \<Rightarrow> exn + json) \<Rightarrow> (int \<Rightarrow> exn + json list) \<Rightarrow> int \<Rightarrow> int \<Rightarrow> unit env" where
  "fixed_env bodies videos k j =
     \<lparr>urlparse = simple_urlparse,
      parse_int = decimal,
      get_oauth = (\<lambda>w. (None, w)),
      get_videos = (\<lambda>vid w. (videos vid, w)),
      urlopen_get = (\<lambda>req w. (bodies (req_game req), w)),
      urlopen_put = (\<lambda>i reason w. (None, w)),
      random53 = (\<lambda>w. (k, w)),
      randbelow = (\<lambda>n w. (j, w))\<rparr>"

definition no_videos :: "int \<Rightarrow> exn + json list" where
  "no_videos vid = Inr []"

text \<open>The game of the examples, and a run as the API sends it.\<close>

definition celeste :: game where
  "celeste =
     \<lparr>game_id = ''celeste'', variable_id = ''ver'', default_ver = ''none'',
      invalid_ver = [(''pc'', [''switch-only''])]\<rparr>"

definition mk_run :: "string \<Rightarrow> json \<Rightarrow> json \<Rightarrow> string \<Rightarrow> json \<Rightarrow> json" where
  "mk_run i rta igt ver videos =
     JObj [(''id'', JStr i),
           (''times'', JObj [(''realtime_t'', rta), (''ingame_t'', igt)]),
           (''values'', JObj [(''ver'', JStr ver)]),
           (''system'', JObj [(''platform'', JStr ''pc'')]),
           (''videos'', videos)]"

definition youtube :: json where
  "youtube = JObj [(''links'', JArr [JObj [(''uri'', JStr ''https://youtu.be/abc'')]])]"

definition no_links :: json where
  "no_links = JObj [(''links'', JArr [])]"

definition run_rta :: json where
  "run_rta = mk_run ''r1'' (JInt 5) (JInt 34) ''1.4'' youtube"

definition run_ok :: json where
  "run_ok = mk_run ''r2'' (JInt 0) (JInt 34) ''1.4'' youtube"

definition source_rta :: "string \<Rightarrow> exn + json" where
  "source_rta g = Inr (JObj [(''data'', JArr [run_rta])])"

definition source_twice :: "string \<Rightarrow> exn + json" where
  "source_twice g = Inr (JObj [(''data'', JArr [run_rta, run_ok, run_rta])])"

definition source_empty :: "string \<Rightarrow> exn + json" where
  "source_empty g = Inr (JObj [(''data'', JArr [])])"

definition source_down :: "string \<Rightarrow> exn + json" where
  "source_down g = (if g = ''celeste'' then Inr (JObj [(''data'', JArr [run_rta])]) else Inl HTTPError)"

definition other_game :: game where
  "other_game = celeste\<lparr>game_id := ''other''\<rparr>"

text \<open>The double that \<^verbatim>\<open>json.loads\<close> reads from \<^verbatim>\<open>1.003\<close>.\<close>

definition float_1_003 :: pyfloat where
  "float_1_003 = Finite 4517110426252607 (- 52)"

definition run_1_003 :: json where
  "run_1_003 = mk_run ''r3'' (JInt 0) (JFloat float_1_003) ''1.4'' youtube"

definition run_no_video :: json where
  "run_no_video =
     JObj [(''id'', JStr ''r4''),
           (''times'', JObj [(''realtime_t'', JInt 0), (''ingame_t'', JInt 34)]),
           (''values'', JObj [(''ver'', JStr ''1.4'')]),
           (''system'', JObj [(''platform'', JStr ''pc'')])]"

definition run_empty_links :: json where
  "run_empty_links = mk_run ''r5'' (JInt 0) (JInt 34) ''1.4'' no_links"

definition run_no_version :: json where
  "run_no_version =
     JObj [(''id'', JStr ''r6''),
           (''times'', JObj [(''realtime_t'', JInt 0), (''ingame_t'', JInt 34)]),
           (''values'', JObj []),
           (''system'', JObj [(''platform'', JStr ''pc'')]),
           (''videos'', youtube)]"

definition quiet_env :: "unit env" where
  "quiet_env = fixed_env source_empty no_videos 0 0"

text \<open>Example cycles: a first one, and the one that the timer starts after it.\<close>

definition rta_env :: "unit env" where
  "rta_env = fixed_env source_rta no_videos 0 0"

definition twice_env :: "unit env" where
  "twice_env = fixed_env source_twice no_videos 0 0"

definition down_env :: "unit env" where
  "down_env = fixed_env source_down no_videos 0 0"

definition cycle_first :: "outcome \<times> unit st" where
  "cycle_first = main twice_env [celeste] [] [] (init ())"

definition cycle_second :: "outcome \<times> unit st" where
  "cycle_second =
     main twice_env [celeste] (cache (snd cycle_first)) (rejected (snd cycle_first))
       (snd cycle_first)"

definition cycle_relisted :: "outcome \<times> unit st" where
  "cycle_relisted = main rta_env [celeste] [] [JStr ''r1''] (init ())"

definition cycle_forgets :: "outcome \<times> unit st" where
  "cycle_forgets = main quiet_env [celeste] [JStr ''old''] [JStr ''gone''] (init ())"

definition cycle_down :: "outcome \<times> unit st" where
  "cycle_down = main down_env [celeste, other_game, celeste] [JStr ''old''] [JStr ''gone''] (init ())"

text \<open>The state after the first example cycle.\<close>

definition state_first :: "unit st" where
  "state_first =
      \<lparr>cache = [JStr ''r1'', JStr ''r2'', JStr ''r1''],
       rejected = [JStr ''r1'', JStr ''r1''], q_counter = 1, world = (),
       events =
         [OAuth None,
          Get (Request ''celeste'' ''desc'' ''game'' 100) (source_twice ''celeste''),
          Check (JStr ''r1''), Faults (JStr ''r1'') [ERROR_SUBMITTED_RTA],
          Check (JStr ''r2''), Faults (JStr ''r2'') [],
          Check (JStr ''r1''), Faults (JStr ''r1'') [ERROR_SUBMITTED_RTA],
          Print (Found (JStr ''r1'') [ERROR_SUBMITTED_RTA]),
          Put (JStr ''r1'') (full_reason [ERROR_SUBMITTED_RTA]) None,
          Print (Rejected (JStr ''r1'')),
          Print (Found (JStr ''r1'') [ERROR_SUBMITTED_RTA]),
          Put (JStr ''r1'') (full_reason [ERROR_SUBMITTED_RTA]) None,
          Print (Rejected (JStr ''r1''))]\<rparr>"

text \<open>
  The states of the example cycle that fails at its second game: after the token
  refresh, after the first game, and when the second game's request has failed.
\<close>

definition state_down0 :: "unit st" where
  "state_down0 = \<lparr>cache = [], rejected = [], q_counter = 0, world = (), events = [OAuth None]\<rparr>"

definition state_down1 :: "unit st" where
  "state_down1 =
     \<lparr>cache = [JStr ''r1''], rejected = [JStr ''r1''], q_counter = 0, world = (),
      events =
        [OAuth None,
         Get (Request ''celeste'' ''desc'' ''game'' 100) (source_down ''celeste''),
         Check (JStr ''r1''), Faults (JStr ''r1'') [ERROR_SUBMITTED_RTA],
         Print (Found (JStr ''r1'') [ERROR_SUBMITTED_RTA]),
         Put (JStr ''r1'') (full_reason [ERROR_SUBMITTED_RTA]) None,
         Print (Rejected (JStr ''r1''))]\<rparr>"

definition state_down2 :: "unit st" where
  "state_down2 =
     state_down1\<lparr>events := events state_down1 @
       [Get (Request ''other'' ''desc'' ''game'' 100) (source_down ''other'')]\<rparr>"

text \<open>
  A source that cannot be reached for the second game, a submission whose videos are
  \<^verbatim>\<open>null\<close>, and one with a time beyond the range of a double once multiplied.
\<close>

definition source_refused :: "string \<Rightarrow> exn + json" where
  "source_refused g =
     (if g = ''celeste'' then Inr (JObj [(''data'', JArr [run_rta])]) else Inl URLError)"

definition refused_env :: "unit env" where
  "refused_env = fixed_env source_refused no_videos 0 0"

definition cycle_refused :: "outcome \<times> unit st" where
  "cycle_refused =
     main refused_env [celeste, other_game, celeste] [JStr ''old''] [JStr ''gone''] (init ())"

definition state_refused :: "unit st" where
  "state_refused =
     \<lparr>cache = [JStr ''r1''], rejected = [JStr ''r1''], q_counter = 0, world = (),
      events =
        [OAuth None,
         Get (Request ''celeste'' ''desc'' ''game'' 100) (source_refused ''celeste''),
         Check (JStr ''r1''), Faults (JStr ''r1'') [ERROR_SUBMITTED_RTA],
         Print (Found (JStr ''r1'') [ERROR_SUBMITTED_RTA]),
         Put (JStr ''r1'') (full_reason [ERROR_SUBMITTED_RTA]) None,
         Print (Rejected (JStr ''r1'')),
         Get (Request ''other'' ''desc'' ''game'' 100) (source_refused ''other'')]\<rparr>"

definition run_null_videos :: json where
  "run_null_videos = mk_run ''r7'' (JInt 0) (JInt 34) ''1.4'' JNull"

definition run_huge_time :: json where
  "run_huge_time = mk_run ''r8'' (JInt 0) (JFloat (Finite 1 1020)) ''1.4'' youtube"

text \<open>
  A submission with a Twitch link, and a video collaborator whose lookup fails with an
  exception that is none of the three Twitch exceptions (a transport error of the HTTP
  library, say).
\<close>

definition twitch :: json where
  "twitch = JObj [(''links'', JArr [JObj [(''uri'', JStr ''https://www.twitch.tv/videos/123'')]])]"

definition run_twitch :: json where
  "run_twitch = mk_run ''r9'' (JInt 0) (JInt 34) ''1.4'' twitch"

definition lookup_down :: "int \<Rightarrow> exn + json list" where
  "lookup_down vid = Inl OtherError"

definition lookup_down_env :: "unit env" where
  "lookup_down_env = fixed_env source_empty lookup_down 0 0"

section \<open>Basic facts\<close>

lemma emit_simps [simp]:
  "events (emit e s) = events s @ [e]"
  "cache (emit e s) = cache s"
  "rejected (emit e s) = rejected s"
  "q_counter (emit e s) = q_counter s"
  "world (emit e s) = world s"
  by (simp_all add: emit_def)

lemma bindE_simps [simp]:
  "bindE (Inl e) f = Inl e"
  "bindE (Inr a) f = f a"
  by (simp_all add: bindE_def)

lemma bindE_eq_Inr: "bindE x f = Inr b \<longleftrightarrow> (\<exists>a. x = Inr a \<and> f a = Inr b)"
  by (cases x) simp_all

lemma run_ids_simps [simp]:
  "run_ids [] = []"
  "run_ids (r # rs) = (case getitem r ''id'' of Inl e \<Rightarrow> [] | Inr i \<Rightarrow> [i]) @ run_ids rs"
  "run_ids (a @ b) = run_ids a @ run_ids b"
  by (simp_all add: run_ids_def)

lemma summary_simps [simp]:
  "gets [] = []" "gets (e # es) = get_of e @ gets es" "gets (a @ b) = gets a @ gets b"
  "checks [] = []" "checks (e # es) = check_of e @ checks es" "checks (a @ b) = checks a @ checks b"
  "faults [] = []" "faults (e # es) = faults_of e @ faults es" "faults (a @ b) = faults a @ faults b"
  "puts [] = []" "puts (e # es) = put_of e @ puts es" "puts (a @ b) = puts a @ puts b"
  "listed [] = []" "listed (e # es) = run_ids (fetched e) @ listed es"
  "listed (a @ b) = listed a @ listed b"
  by (simp_all add: gets_def checks_def faults_def puts_def listed_def)

lemma silent_simps [simp]:
  "silent []" "silent (a @ b) \<longleftrightarrow> silent a \<and> silent b"
  "silent [Print l]" "silent [Videos v r]" "silent [OAuth x]"
  by (auto simp: silent_def)

lemma gets_empty_listed: "gets es = [] \<Longrightarrow> listed es = []"
proof (induction es)
  case Nil
  then show ?case by simp
next
  case (Cons e es)
  then show ?case by (cases e) auto
qed

lemma silent_listed: "silent es \<Longrightarrow> listed es = []"
  by (simp add: silent_def gets_empty_listed)

lemma extendsI: "events s' = events s @ es \<Longrightarrow> extends s s' \<and> new_events s s' = es"
  by (simp add: extends_def new_events_def)

lemma extendsD: "extends s s' \<Longrightarrow> events s' = events s @ new_events s s'"
  by (simp add: extends_def)

lemma extends_refl [simp]: "extends s s" "new_events s s = []"
  by (simp_all add: extends_def new_events_def)

lemma extends_trans:
  assumes "extends s s1" "extends s1 s2"
  shows "extends s s2" "new_events s s2 = new_events s s1 @ new_events s1 s2"
proof -
  have "events s2 = events s @ (new_events s s1 @ new_events s1 s2)"
    using assms by (simp add: extends_def)
  then show "extends s s2" "new_events s s2 = new_events s s1 @ new_events s1 s2"
    using extendsI by blast+
qed

lemma quiet_step_refl [simp]: "quiet_step s s"
  by (simp add: quiet_step_def)

lemma quiet_step_trans: "quiet_step s s1 \<Longrightarrow> quiet_step s1 s2 \<Longrightarrow> quiet_step s s2"
  unfolding quiet_step_def using extends_trans [of s s1 s2] by auto

lemma quiet_stepI:
  assumes "events s' = events s @ es" "silent es" "cache s' = cache s"
    "rejected s' = rejected s" "q_counter s' = q_counter s"
  shows "quiet_step s s'"
  using assms extendsI [OF assms(1)] by (simp add: quiet_step_def)

lemma valid_existing_version_quiet:
  "valid_existing_version run g s = (r, s') \<Longrightarrow> quiet_step s s'"
  by (auto simp: valid_existing_version_def split: sum.splits if_splits
        intro: quiet_stepI [where es = "[]"] quiet_stepI [where es = "[Print l]" for l])

lemma lookup_video_quiet:
  "lookup_video env path s = (r, s') \<Longrightarrow> quiet_step s s'"
  by (auto simp: lookup_video_def Let_def split: sum.splits prod.splits
        intro: quiet_stepI [where es = "[]"] quiet_stepI [where es = "[Videos v x]" for v x])

lemma inner_handlers_quiet:
  "inner_handlers (r0, s0) = (r, s') \<Longrightarrow> s' = s0"
  by (auto simp: inner_handlers_def split: sum.splits if_splits)

lemma outer_handlers_quiet:
  "outer_handlers (r0, s0) = (r, s') \<Longrightarrow> quiet_step s0 s'"
  by (auto simp: outer_handlers_def split: sum.splits if_splits
        intro: quiet_stepI [where es = "[]"] quiet_stepI [where es = "[Print l]" for l])

lemma valid_persistent_vod_quiet:
  assumes "valid_persistent_vod env run s = (r, s')"
  shows "quiet_step s s'"
proof -
  obtain r0 s0 where mid: "valid_persistent_vod env run s = outer_handlers (r0, s0)"
    and q0: "quiet_step s s0"
  proof (cases "bindE (getitem run ''videos'') (\<lambda>videos.
             bindE (getitem videos ''links'') (\<lambda>link_list.
             bindE (py_iter link_list) (first_twitch env)))")
    case (Inl e)
    then show ?thesis using that [of "Inl e" s] by (simp add: valid_persistent_vod_def)
  next
    case (Inr opt)
    show ?thesis
    proof (cases opt)
      case None
      then show ?thesis using Inr that [of "Inr True" s] by (simp add: valid_persistent_vod_def)
    next
      case (Some par)
      obtain r1 s1 where lv: "lookup_video env (snd par) s = (r1, s1)" by fastforce
      obtain r2 s2 where ih: "inner_handlers (r1, s1) = (r2, s2)" by fastforce
      have "s2 = s1" using ih by (rule inner_handlers_quiet)
      then have "quiet_step s s2" using lookup_video_quiet [OF lv] by simp
      then show ?thesis using that [of r2 s2] Inr Some lv ih
        by (simp add: valid_persistent_vod_def)
    qed
  qed
  from assms mid have "outer_handlers (r0, s0) = (r, s')" by simp
  from outer_handlers_quiet [OF this] q0 show ?thesis by (rule quiet_step_trans [rotated])
qed

lemma check_run_quiet:
  assumes "check_run env g run s = (r, s')"
  shows "quiet_step s s'"
proof -
  obtain r4 s1 where a: "valid_existing_version run g s = (r4, s1)" by fastforce
  obtain r5 s2 where b: "valid_persistent_vod env run s1 = (r5, s2)" by fastforce
  note q1 = valid_existing_version_quiet [OF a]
  note q2 = quiet_step_trans [OF q1 valid_persistent_vod_quiet [OF b]]
  show ?thesis
    using assms a b q1 q2
    by (auto simp: check_run_def split: sum.splits)
qed

lemma step_chain:
  assumes "events s1 = events s @ es1" "extends s1 s'"
  shows "extends s s'" "new_events s s' = es1 @ new_events s1 s'"
  using extends_trans [of s s1 s'] extendsI [OF assms(1)] assms(2) by auto

lemma quiet_stepD:
  assumes "quiet_step s s'"
  shows "events s' = events s @ new_events s s'" "silent (new_events s s')"
    "cache s' = cache s" "rejected s' = rejected s" "q_counter s' = q_counter s"
  using assms by (simp_all add: quiet_step_def extends_def)

lemma silentD:
  assumes "silent es"
  shows "gets es = []" "checks es = []" "faults es = []" "puts es = []" "listed es = []"
  using assms silent_listed by (simp_all add: silent_def)

lemma scan_runs_any:
  "scan_runs env g ig ar runs fl s = (r, s') \<Longrightarrow>
     extends s s' \<and> q_counter s' = q_counter s
     \<and> gets (new_events s s') = [] \<and> puts (new_events s s') = []
     \<and> (\<forall>i \<in> set (checks (new_events s s')). i \<notin> set ig \<and> i \<notin> set ar)
     \<and> (\<forall>x \<in> set (faults (new_events s s')). fst x \<notin> set ig \<and> fst x \<notin> set ar)"
proof (induction runs arbitrary: fl s)
  case Nil
  then show ?case by simp
next
  case (Cons this_run rest)
  show ?case
  proof (cases "getitem this_run ''id''")
    case (Inl e)
    then show ?thesis using Cons.prems by simp
  next
    case (Inr i)
    consider (rej) "i \<in> set ar" | (ign) "i \<notin> set ar" "i \<in> set ig"
      | (new) "i \<notin> set ar" "i \<notin> set ig" by blast
    then show ?thesis
    proof cases
      case rej
      let ?s1 = "s\<lparr>rejected := rejected s @ [i]\<rparr>"
      have run: "scan_runs env g ig ar rest fl ?s1 = (r, s')"
        using Cons.prems Inr rej by simp
      note ih = Cons.IH [OF run]
      have ev: "events ?s1 = events s @ []" by simp
      from step_chain [OF ev] ih show ?thesis by simp
    next
      case ign
      let ?s1 = "s\<lparr>cache := cache s @ [i]\<rparr>"
      have run: "scan_runs env g ig ar rest fl ?s1 = (r, s')"
        using Cons.prems Inr ign by simp
      note ih = Cons.IH [OF run]
      have ev: "events ?s1 = events s @ []" by simp
      from step_chain [OF ev] ih show ?thesis by simp
    next
      case new
      let ?s1 = "emit (Check i) (s\<lparr>cache := cache s @ [i]\<rparr>)"
      obtain rc s2 where ck: "check_run env g this_run ?s1 = (rc, s2)" by fastforce
      note q = quiet_stepD [OF check_run_quiet [OF ck]]
      note sl = silentD [OF q(2)]
      have ev2: "events s2 = events s @ ([Check i] @ new_events ?s1 s2)"
        using q(1) by simp
      show ?thesis
      proof (cases rc)
        case (Inl e)
        then have "r = Inl e" "s' = s2" using Cons.prems Inr new ck by simp_all
        then show ?thesis using extendsI [OF ev2] q sl new by simp
      next
        case (Inr fs)
        let ?s3 = "emit (Faults i fs) s2"
        let ?fl = "if 0 < length fs then fl @ [(i, fs)] else fl"
        have run: "scan_runs env g ig ar rest ?fl ?s3 = (r, s')"
          using Cons.prems \<open>getitem this_run ''id'' = Inr i\<close> new ck Inr by simp
        note ih = Cons.IH [OF run]
        have ev3: "events ?s3 = events s @ ([Check i] @ new_events ?s1 s2 @ [Faults i fs])"
          using ev2 by simp
        from step_chain [OF ev3] ih show ?thesis using q sl new by simp
      qed
    qed
  qed
qed

lemma scan_runs_clean:
  "scan_runs env g ig ar runs fl s = (Inr fl', s') \<Longrightarrow>
     cache s' = cache s @ [i \<leftarrow> run_ids runs. i \<notin> set ar]
     \<and> rejected s' = rejected s @ [i \<leftarrow> run_ids runs. i \<in> set ar]
     \<and> checks (new_events s s') = [i \<leftarrow> run_ids runs. i \<notin> set ar \<and> i \<notin> set ig]
     \<and> map fst (faults (new_events s s')) = [i \<leftarrow> run_ids runs. i \<notin> set ar \<and> i \<notin> set ig]
     \<and> fl' = fl @ faulty (faults (new_events s s'))"
proof (induction runs arbitrary: fl s)
  case Nil
  then show ?case by (simp add: faulty_def)
next
  case (Cons this_run rest)
  show ?case
  proof (cases "getitem this_run ''id''")
    case (Inl e)
    then show ?thesis using Cons.prems by simp
  next
    case (Inr i)
    consider (rej) "i \<in> set ar" | (ign) "i \<notin> set ar" "i \<in> set ig"
      | (new) "i \<notin> set ar" "i \<notin> set ig" by blast
    then show ?thesis
    proof cases
      case rej
      let ?s1 = "s\<lparr>rejected := rejected s @ [i]\<rparr>"
      have run: "scan_runs env g ig ar rest fl ?s1 = (Inr fl', s')"
        using Cons.prems Inr rej by simp
      note ih = Cons.IH [OF run]
      have ev: "events ?s1 = events s @ []" by simp
      from step_chain [OF ev] scan_runs_any [OF run] ih show ?thesis using Inr rej by simp
    next
      case ign
      let ?s1 = "s\<lparr>cache := cache s @ [i]\<rparr>"
      have run: "scan_runs env g ig ar rest fl ?s1 = (Inr fl', s')"
        using Cons.prems Inr ign by simp
      note ih = Cons.IH [OF run]
      have ev: "events ?s1 = events s @ []" by simp
      from step_chain [OF ev] scan_runs_any [OF run] ih show ?thesis using Inr ign by simp
    next
      case new
      let ?s1 = "emit (Check i) (s\<lparr>cache := cache s @ [i]\<rparr>)"
      obtain rc s2 where ck: "check_run env g this_run ?s1 = (rc, s2)" by fastforce
      note q = quiet_stepD [OF check_run_quiet [OF ck]]
      note sl = silentD [OF q(2)]
      have ev2: "events s2 = events s @ ([Check i] @ new_events ?s1 s2)"
        using q(1) by simp
      show ?thesis
      proof (cases rc)
        case (Inl e)
        then show ?thesis using Cons.prems Inr new ck by simp
      next
        case fs: (Inr fs)
        let ?s3 = "emit (Faults i fs) s2"
        let ?fl = "if 0 < length fs then fl @ [(i, fs)] else fl"
        have run: "scan_runs env g ig ar rest ?fl ?s3 = (Inr fl', s')"
          using Cons.prems Inr new ck fs by simp
        note ih = Cons.IH [OF run]
        have ev3: "events ?s3 = events s @ ([Check i] @ new_events ?s1 s2 @ [Faults i fs])"
          using ev2 by simp
        from step_chain [OF ev3] scan_runs_any [OF run] ih
        show ?thesis using q sl new Inr by (simp add: faulty_def)
      qed
    qed
  qed
qed

lemma reject_runs_any:
  "reject_runs env fl s = (r, s') \<Longrightarrow>
     extends s s' \<and> q_counter s' = q_counter s \<and> cache s' = cache s
     \<and> gets (new_events s s') = [] \<and> checks (new_events s s') = []
     \<and> faults (new_events s s') = []
     \<and> (\<forall>p \<in> set (puts (new_events s s')).
            \<exists>x \<in> set fl. fst p = fst x \<and> fst (snd p) = full_reason (snd x))"
proof (induction fl arbitrary: s)
  case Nil
  then show ?case by simp
next
  case (Cons this_run rest)
  let ?i = "fst this_run" and ?fs = "snd this_run"
  let ?s1 = "emit (Print (Found ?i ?fs)) s"
  let ?res = "urlopen_put env ?i (full_reason ?fs) (world ?s1)"
  let ?s2 = "emit (Put ?i (full_reason ?fs) (fst ?res)) (?s1\<lparr>world := snd ?res\<rparr>)"
  have ev2: "events ?s2 = events s @ [Print (Found ?i ?fs), Put ?i (full_reason ?fs) (fst ?res)]"
    by simp
  show ?case
  proof (cases "fst ?res")
    case (Some e)
    then have "r = Inl e" "s' = ?s2" using Cons.prems by (simp_all add: Let_def)
    then show ?thesis using extendsI [OF ev2] by simp
  next
    case None
    let ?s3 = "emit (Print (Rejected ?i)) (?s2\<lparr>rejected := rejected ?s2 @ [?i]\<rparr>)"
    have run: "reject_runs env rest ?s3 = (r, s')"
      using Cons.prems None by (simp add: Let_def)
    note ih = Cons.IH [OF run]
    have ev3: "events ?s3 = events s @ [Print (Found ?i ?fs), Put ?i (full_reason ?fs) (fst ?res),
        Print (Rejected ?i)]" by simp
    from step_chain [OF ev3] ih show ?thesis by auto
  qed
qed

lemma reject_runs_clean:
  "reject_runs env fl s = (Inr u, s') \<Longrightarrow>
     puts (new_events s s') = map reject_call fl \<and> rejected s' = rejected s @ map fst fl"
proof (induction fl arbitrary: s)
  case Nil
  then show ?case by simp
next
  case (Cons this_run rest)
  let ?i = "fst this_run" and ?fs = "snd this_run"
  let ?s1 = "emit (Print (Found ?i ?fs)) s"
  let ?res = "urlopen_put env ?i (full_reason ?fs) (world ?s1)"
  let ?s2 = "emit (Put ?i (full_reason ?fs) (fst ?res)) (?s1\<lparr>world := snd ?res\<rparr>)"
  show ?case
  proof (cases "fst ?res")
    case (Some e)
    then show ?thesis using Cons.prems by (simp add: Let_def)
  next
    case None
    let ?s3 = "emit (Print (Rejected ?i)) (?s2\<lparr>rejected := rejected ?s2 @ [?i]\<rparr>)"
    have run: "reject_runs env rest ?s3 = (Inr u, s')"
      using Cons.prems None by (simp add: Let_def)
    note ih = Cons.IH [OF run]
    have ev3: "events ?s3 = events s @ [Print (Found ?i ?fs), Put ?i (full_reason ?fs) None,
        Print (Rejected ?i)]" using None by simp
    from step_chain [OF ev3] reject_runs_any [OF run] ih
    show ?thesis by (simp add: reject_call_def)
  qed
qed

lemma process_runs_any:
  assumes "process_runs env g ig ar runs s = (r, s')"
  shows "extends s s' \<and> q_counter s' = q_counter s
     \<and> gets (new_events s s') = []
     \<and> (\<forall>i \<in> set (checks (new_events s s')). i \<notin> set ig \<and> i \<notin> set ar)
     \<and> (\<forall>x \<in> set (faults (new_events s s')). fst x \<notin> set ig \<and> fst x \<notin> set ar)
     \<and> (\<forall>p \<in> set (puts (new_events s s')). fst p \<notin> set ig \<and> fst p \<notin> set ar
           \<and> (\<exists>x \<in> set (faulty (faults (new_events s s'))).
                 fst p = fst x \<and> fst (snd p) = full_reason (snd x)))"
proof -
  obtain r1 s1 where sc: "scan_runs env g ig ar runs [] s = (r1, s1)" by fastforce
  note a = scan_runs_any [OF sc]
  show ?thesis
  proof (cases r1)
    case (Inl e)
    then have "s' = s1" using assms sc by (simp add: process_runs_def)
    then show ?thesis using a by simp
  next
    case (Inr fl)
    then have rj: "reject_runs env fl s1 = (r, s')" using assms sc by (simp add: process_runs_def)
    note b = reject_runs_any [OF rj]
    have fl: "fl = faulty (faults (new_events s s1))"
      using scan_runs_clean [OF sc [unfolded Inr]] by simp
    have tr: "extends s s'" "new_events s s' = new_events s s1 @ new_events s1 s'"
      using extends_trans [of s s1 s'] a b by auto
    have sub: "set fl \<subseteq> set (faults (new_events s s1))" using fl by (auto simp: faulty_def)
    have pts: "\<forall>p \<in> set (puts (new_events s s')). fst p \<notin> set ig \<and> fst p \<notin> set ar
           \<and> (\<exists>x \<in> set (faulty (faults (new_events s s'))).
                 fst p = fst x \<and> fst (snd p) = full_reason (snd x))"
    proof
      fix p assume "p \<in> set (puts (new_events s s'))"
      then have "p \<in> set (puts (new_events s1 s'))" using tr a by simp
      then obtain x where x: "x \<in> set fl" "fst p = fst x" "fst (snd p) = full_reason (snd x)"
        using b by blast
      then have "x \<in> set (faults (new_events s s1))" using sub by blast
      then have "fst x \<notin> set ig \<and> fst x \<notin> set ar" using a by blast
      moreover have "faulty (faults (new_events s s')) = fl" using tr b fl by (simp add: faulty_def)
      ultimately show "fst p \<notin> set ig \<and> fst p \<notin> set ar
           \<and> (\<exists>x \<in> set (faulty (faults (new_events s s'))).
                 fst p = fst x \<and> fst (snd p) = full_reason (snd x))"
        using x by auto
    qed
    have "extends s s' \<and> q_counter s' = q_counter s \<and> gets (new_events s s') = []
      \<and> (\<forall>i \<in> set (checks (new_events s s')). i \<notin> set ig \<and> i \<notin> set ar)
      \<and> (\<forall>x \<in> set (faults (new_events s s')). fst x \<notin> set ig \<and> fst x \<notin> set ar)"
      using a b tr by simp
    then show ?thesis using pts by blast
  qed
qed

lemma process_runs_clean:
  assumes "process_runs env g ig ar runs s = (Inr u, s')"
  shows "cache s' = cache s @ [i \<leftarrow> run_ids runs. i \<notin> set ar]
     \<and> rejected s' = rejected s @ [i \<leftarrow> run_ids runs. i \<in> set ar]
          @ map fst (faulty (faults (new_events s s')))
     \<and> checks (new_events s s') = [i \<leftarrow> run_ids runs. i \<notin> set ar \<and> i \<notin> set ig]
     \<and> map fst (faults (new_events s s')) = [i \<leftarrow> run_ids runs. i \<notin> set ar \<and> i \<notin> set ig]
     \<and> puts (new_events s s') = map reject_call (faulty (faults (new_events s s')))"
proof -
  obtain r1 s1 where sc: "scan_runs env g ig ar runs [] s = (r1, s1)" by fastforce
  show ?thesis
  proof (cases r1)
    case (Inl e)
    then show ?thesis using assms sc by (simp add: process_runs_def)
  next
    case (Inr fl)
    then have rj: "reject_runs env fl s1 = (Inr u, s')"
      using assms sc by (simp add: process_runs_def)
    note a = scan_runs_any [OF sc] and a' = scan_runs_clean [OF sc [unfolded Inr]]
    note b = reject_runs_any [OF rj] and b' = reject_runs_clean [OF rj]
    have tr: "new_events s s' = new_events s s1 @ new_events s1 s'"
      using extends_trans [of s s1 s'] a b by auto
    show ?thesis using a a' b b' tr by simp
  qed
qed

lemma bitlen_numeral [simp]:
  "bitlen (numeral n) = 1 + bitlen (numeral n div 2)"
  "bitlen 0 = 0"
  "bitlen 1 = 1"
  by (subst bitlen.simps, simp)+

lemmas float_defs = float_round_def mk_float_def round_even_def Let_def

lemmas example_defs =
  quiet_env_def fixed_env_def init_def celeste_def mk_run_def youtube_def no_links_def
  source_empty_def no_videos_def simple_urlparse_def

lemmas predicate_defs =
  valid_real_time_def valid_default_version_def valid_in_game_time_def
  valid_existing_version_def valid_persistent_vod_def platform_of_def
  outer_handlers_def inner_handlers_def fault_if_not_def


lemma rand_d_cases: "rand_d k = ''desc'' \<or> rand_d k = ''asc''"
  by (simp add: rand_d_def)

lemma randint_range: "100 \<le> randint_100_200 j" "randint_100_200 j \<le> 200"
  by (simp_all add: randint_100_200_def)

lemma fetch_runs_any:
  assumes "fetch_runs env g s = (r, s')"
  shows "extends s s' \<and> q_counter s' = q_counter s \<and> cache s' = cache s
     \<and> rejected s' = rejected s
     \<and> checks (new_events s s') = [] \<and> faults (new_events s s') = []
     \<and> puts (new_events s s') = []
     \<and> (\<forall>req \<in> set (gets (new_events s s')). good_request s g req)
     \<and> listed (new_events s s') = (case r of Inl e \<Rightarrow> [] | Inr runs \<Rightarrow> run_ids runs)"
proof (cases "query_field (q_counter s)")
  case (Inl e)
  then have res: "r = Inl e" "s' = s\<lparr>world := snd (random53 env (world s))\<rparr>"
    using assms by (simp_all add: fetch_runs_def Let_def)
  have "events s' = events s @ []" using res(2) by simp
  from extendsI [OF this] show ?thesis using res by simp
next
  case (Inr field)
  define r1 where "r1 = random53 env (world s)"
  define r2 where "r2 = randbelow env 101 (snd r1)"
  define req where "req = Request (game_id g) (rand_d (fst r1)) field (randint_100_200 (fst r2))"
  define r3 where "r3 = urlopen_get env req (snd r2)"
  have res: "r = bindE (fst r3) (\<lambda>body. bindE (getitem body ''data'') py_iter)"
    "s' = emit (Get req (fst r3)) (s\<lparr>world := snd r3\<rparr>)"
    using assms Inr by (simp_all add: fetch_runs_def Let_def r1_def r2_def req_def r3_def)
  have ev: "events s' = events s @ [Get req (fst r3)]" using res(2) by simp
  have fld: "q_counter s < length QUERY_TABLE" "field = QUERY_TABLE ! q_counter s"
    using Inr by (simp_all add: query_field_def split: if_splits)
  have good: "good_request s g req"
    unfolding good_request_def req_def
    using fld rand_d_cases [of "fst r1"] randint_range [of "fst r2"] by simp
  have lst: "listed [Get req (fst r3)] = (case r of Inl e \<Rightarrow> [] | Inr runs \<Rightarrow> run_ids runs)"
  proof (cases "fst r3")
    case (Inl e)
    then show ?thesis using res(1) by simp
  next
    case (Inr body)
    then show ?thesis using res(1)
      by (cases "bindE (getitem body ''data'') py_iter") simp_all
  qed
  have frame: "q_counter s' = q_counter s" "cache s' = cache s" "rejected s' = rejected s"
    using res(2) by simp_all
  from extendsI [OF ev] have n: "extends s s'" "new_events s s' = [Get req (fst r3)]" by simp_all
  show ?thesis unfolding n(2) using n(1) frame good lst by simp
qed

lemma faulty_simps [simp]:
  "faulty [] = []" "faulty (a @ b) = faulty a @ faulty b"
  by (simp_all add: faulty_def)

lemma game_body_any:
  assumes "game_body env ig ar g s = (r, s')"
  shows "extends s s' \<and> q_counter s' = q_counter s
     \<and> (\<forall>req \<in> set (gets (new_events s s')). good_request s g req)
     \<and> (\<forall>i \<in> set (checks (new_events s s')). i \<notin> set ig \<and> i \<notin> set ar)
     \<and> (\<forall>x \<in> set (faults (new_events s s')). fst x \<notin> set ig \<and> fst x \<notin> set ar)
     \<and> (\<forall>p \<in> set (puts (new_events s s')). fst p \<notin> set ig \<and> fst p \<notin> set ar
           \<and> (\<exists>x \<in> set (faulty (faults (new_events s s'))).
                 fst p = fst x \<and> fst (snd p) = full_reason (snd x)))"
proof -
  obtain r1 s1 where f: "fetch_runs env g s = (r1, s1)" by fastforce
  note a = fetch_runs_any [OF f]
  show ?thesis
  proof (cases r1)
    case (Inl e)
    then have "s' = s1" using assms f by (simp add: game_body_def)
    then show ?thesis using a by simp
  next
    case (Inr runs)
    then have p: "process_runs env g ig ar runs s1 = (r, s')"
      using assms f by (simp add: game_body_def)
    note b = process_runs_any [OF p]
    have tr: "extends s s'" "new_events s s' = new_events s s1 @ new_events s1 s'"
      using extends_trans [of s s1 s'] a b by auto
    show ?thesis using a b tr by simp
  qed
qed

lemma game_body_clean:
  assumes "game_body env ig ar g s = (Inr u, s')"
  shows "cache s' = cache s @ [i \<leftarrow> listed (new_events s s'). i \<notin> set ar]
     \<and> rejected s' = rejected s @ [i \<leftarrow> listed (new_events s s'). i \<in> set ar]
          @ map fst (faulty (faults (new_events s s')))
     \<and> checks (new_events s s') = [i \<leftarrow> listed (new_events s s'). i \<notin> set ar \<and> i \<notin> set ig]
     \<and> map fst (faults (new_events s s')) = [i \<leftarrow> listed (new_events s s'). i \<notin> set ar \<and> i \<notin> set ig]
     \<and> puts (new_events s s') = map reject_call (faulty (faults (new_events s s')))"
proof -
  obtain r1 s1 where f: "fetch_runs env g s = (r1, s1)" by fastforce
  note a = fetch_runs_any [OF f]
  show ?thesis
  proof (cases r1)
    case (Inl e)
    then show ?thesis using assms f by (simp add: game_body_def)
  next
    case (Inr runs)
    then have p: "process_runs env g ig ar runs s1 = (Inr u, s')"
      using assms f by (simp add: game_body_def)
    note b = process_runs_any [OF p] and b' = process_runs_clean [OF p]
    have tr: "new_events s s' = new_events s s1 @ new_events s1 s'"
      using extends_trans [of s s1 s'] a b by auto
    have l: "listed (new_events s s') = run_ids runs"
      using a b tr Inr gets_empty_listed [of "new_events s1 s'"] by simp
    show ?thesis using a b' tr l by simp
  qed
qed

lemma good_request_cong: "q_counter s1 = q_counter s \<Longrightarrow> good_request s1 g req = good_request s g req"
  by (simp add: good_request_def)

lemma abort_cycle_facts:
  "events (abort_cycle line ig ar s) = events s @ [Print line]"
  "q_counter (abort_cycle line ig ar s) = q_counter s"
  "world (abort_cycle line ig ar s) = world s"
  "set (cache (abort_cycle line ig ar s)) = set (cache s) \<union> set ig"
  "set (rejected (abort_cycle line ig ar s)) = set (rejected s) \<union> set ar"
  by (simp_all add: abort_cycle_def)

lemma trace_ok_append:
  assumes "trace_ok ig ar [g] s a" "trace_ok ig ar gs s1 b" "q_counter s1 = q_counter s"
  shows "trace_ok ig ar (g # gs) s (a @ b)"
proof -
  have b': "trace_ok ig ar gs s b"
    using assms(2) good_request_cong [OF assms(3)] by (simp add: trace_ok_def)
  show ?thesis
    using assms(1) b' unfolding trace_ok_def
    by (simp add: ball_Un) blast
qed

lemma trace_ok_silent: "silent es \<Longrightarrow> trace_ok ig ar gs s es"
  by (simp add: trace_ok_def silent_def)

lemma trace_ok_mono: "trace_ok ig ar [g] s es \<Longrightarrow> trace_ok ig ar (g # gs) s es"
  by (simp add: trace_ok_def) 

lemma game_body_trace_ok:
  "game_body env ig ar g s = (r, s') \<Longrightarrow> trace_ok ig ar [g] s (new_events s s')"
  using game_body_any [of env ig ar g s r s'] by (simp add: trace_ok_def)

lemma games_loop_any:
  "games_loop env ig ar gs s = (out, s') \<Longrightarrow>
     extends s s' \<and> q_counter s' = q_counter s \<and> trace_ok ig ar gs s (new_events s s')"
proof (induction gs arbitrary: s)
  case Nil
  then show ?case by (simp add: trace_ok_silent)
next
  case (Cons g gs)
  obtain r s1 where gb: "game_body env ig ar g s = (r, s1)" by fastforce
  note a = game_body_any [OF gb] and t = game_body_trace_ok [OF gb]
  show ?case
  proof (cases r)
    case (Inr u)
    then have run: "games_loop env ig ar gs s1 = (out, s')" using Cons.prems gb by simp
    note ih = Cons.IH [OF run]
    have tr: "extends s s'" "new_events s s' = new_events s s1 @ new_events s1 s'"
      using extends_trans [of s s1 s'] a ih by auto
    have "trace_ok ig ar (g # gs) s (new_events s s1 @ new_events s1 s')"
      using trace_ok_append [OF t, of gs s1 "new_events s1 s'"] ih a by simp
    then show ?thesis using tr ih a by simp
  next
    case (Inl e)
    show ?thesis
    proof (cases "e = HTTPError \<or> e = ConnectionError")
      case True
      then obtain line where s': "s' = abort_cycle line ig ar s1"
        using Cons.prems gb Inl by (auto split: if_splits)
      have ev: "events s' = events s1 @ [Print line]" using s' by (simp add: abort_cycle_facts)
      have e1: "extends s1 s'" "new_events s1 s' = [Print line]" using extendsI [OF ev] by simp_all
      have tr: "extends s s'" "new_events s s' = new_events s s1 @ [Print line]"
        using extends_trans [of s s1 s'] a e1 by auto
      have "trace_ok ig ar (g # gs) s (new_events s s1 @ [Print line])"
        using trace_ok_append [OF t, of gs s1 "[Print line]"] a
          trace_ok_silent [of "[Print line]" ig ar gs s1] by simp
      then show ?thesis using tr a s' by (simp add: abort_cycle_facts)
    next
      case False
      then have "s' = s1" using Cons.prems gb Inl by (auto split: if_splits)
      then show ?thesis using a trace_ok_mono [OF t] by simp
    qed
  qed
qed

lemma games_loop_aborted:
  "games_loop env ig ar gs s = (Aborted e, s') \<Longrightarrow>
     (e = HTTPError \<or> e = ConnectionError)
     \<and> set ig \<subseteq> set (cache s') \<and> set ar \<subseteq> set (rejected s')"
proof (induction gs arbitrary: s)
  case Nil
  then show ?case by simp
next
  case (Cons g gs)
  obtain r s1 where gb: "game_body env ig ar g s = (r, s1)" by fastforce
  show ?case
  proof (cases r)
    case (Inr u)
    then have "games_loop env ig ar gs s1 = (Aborted e, s')" using Cons.prems gb by simp
    then show ?thesis by (rule Cons.IH)
  next
    case (Inl e')
    then show ?thesis using Cons.prems gb
      by (auto split: if_splits simp: abort_cycle_facts)
  qed
qed

lemma games_loop_completed:
  "games_loop env ig ar gs s = (Completed, s') \<Longrightarrow>
     cache s' = cache s @ [i \<leftarrow> listed (new_events s s'). i \<notin> set ar]
     \<and> set (rejected s') = set (rejected s)
          \<union> {i \<in> set (listed (new_events s s')). i \<in> set ar}
          \<union> fst ` set (faulty (faults (new_events s s')))
     \<and> checks (new_events s s') = [i \<leftarrow> listed (new_events s s'). i \<notin> set ar \<and> i \<notin> set ig]
     \<and> map fst (faults (new_events s s')) = [i \<leftarrow> listed (new_events s s'). i \<notin> set ar \<and> i \<notin> set ig]
     \<and> puts (new_events s s') = map reject_call (faulty (faults (new_events s s')))"
proof (induction gs arbitrary: s)
  case Nil
  then show ?case by simp
next
  case (Cons g gs)
  obtain r s1 where gb: "game_body env ig ar g s = (r, s1)" by fastforce
  show ?case
  proof (cases r)
    case (Inr u)
    then have run: "games_loop env ig ar gs s1 = (Completed, s')" using Cons.prems gb by simp
    note ih = Cons.IH [OF run]
    note a = game_body_any [OF gb] and a' = game_body_clean [OF gb [unfolded Inr]]
    note b = games_loop_any [OF run]
    have tr: "new_events s s' = new_events s s1 @ new_events s1 s'"
      using extends_trans [of s s1 s'] a b by auto
    have c: "cache s' = cache s @ [i \<leftarrow> listed (new_events s s'). i \<notin> set ar]"
      using a' ih tr by simp
    have rj: "set (rejected s') = set (rejected s)
          \<union> {i \<in> set (listed (new_events s s')). i \<in> set ar}
          \<union> fst ` set (faulty (faults (new_events s s')))"
      using a' ih tr by auto
    have rest: "checks (new_events s s') = [i \<leftarrow> listed (new_events s s'). i \<notin> set ar \<and> i \<notin> set ig]
     \<and> map fst (faults (new_events s s')) = [i \<leftarrow> listed (new_events s s'). i \<notin> set ar \<and> i \<notin> set ig]
     \<and> puts (new_events s s') = map reject_call (faulty (faults (new_events s s')))"
      using a' ih tr by simp
    show ?thesis using c rj rest by blast
  next
    case (Inl e)
    then show ?thesis using Cons.prems gb by (auto split: if_splits)
  qed
qed

lemma games_loop_append:
  "games_loop env ig ar (gs1 @ gs2) s =
     (case games_loop env ig ar gs1 s of
        (Completed, s1) \<Rightarrow> games_loop env ig ar gs2 s1
      | (Aborted e, s1) \<Rightarrow> (Aborted e, s1)
      | (Crashed e, s1) \<Rightarrow> (Crashed e, s1))"
proof (induction gs1 arbitrary: s)
  case Nil
  then show ?case by simp
next
  case (Cons g gs1)
  obtain r s1 where gb: "game_body env ig ar g s = (r, s1)" by fastforce
  show ?case
  proof (cases r)
    case (Inr u)
    then show ?thesis using gb Cons.IH [of s1] by simp
  next
    case (Inl e)
    then show ?thesis using gb by simp
  qed
qed

lemma refresh_oauth_quiet:
  assumes "refresh_oauth env s = (x, s')"
  shows "quiet_step s s'"
proof -
  define r where "r = get_oauth env (world s)"
  define s1 where "s1 = emit (OAuth (fst r)) (s\<lparr>world := snd r\<rparr>)"
  have "s' = s1 \<or> s' = emit (Print OAuthError) s1"
    using assms by (auto simp: refresh_oauth_def Let_def r_def s1_def split: option.splits if_splits)
  then show ?thesis
  proof
    assume "s' = s1"
    then show ?thesis
      by (intro quiet_stepI [where es = "[OAuth (fst r)]"]) (simp_all add: s1_def)
  next
    assume "s' = emit (Print OAuthError) s1"
    then show ?thesis
      by (intro quiet_stepI [where es = "[OAuth (fst r), Print OAuthError]"])
         (simp_all add: s1_def silent_def)
  qed
qed

lemma main_cases:
  assumes "main env games ig ar s = (out, s')"
  obtains (oauth) e where "refresh_oauth env (s\<lparr>cache := [], rejected := []\<rparr>) = (Some e, s')"
      and "out = Crashed e"
    | (crash) s1 e where "refresh_oauth env (s\<lparr>cache := [], rejected := []\<rparr>) = (None, s1)"
      and "games_loop env ig ar games s1 = (Crashed e, s')" and "out = Crashed e"
    | (finished) s1 s2 where "refresh_oauth env (s\<lparr>cache := [], rejected := []\<rparr>) = (None, s1)"
      and "games_loop env ig ar games s1 = (out, s2)" and "\<forall>e. out \<noteq> Crashed e"
      and "s' = s2\<lparr>q_counter := (q_counter s2 + 1) mod length QUERY_TABLE\<rparr>"
proof -
  obtain x s1 where r: "refresh_oauth env (s\<lparr>cache := [], rejected := []\<rparr>) = (x, s1)"
    by fastforce
  show ?thesis
  proof (cases x)
    case (Some e)
    then show ?thesis using assms r oauth by (simp add: main_def)
  next
    case None
    obtain out2 s2 where g: "games_loop env ig ar games s1 = (out2, s2)" by fastforce
    show ?thesis
    proof (cases out2)
      case (Crashed e)
      then have "out = Crashed e" "s' = s2" using assms r None g by (simp_all add: main_def)
      then show ?thesis using r None g Crashed crash [of s1 e] by simp
    next
      case Completed
      then have "out = Completed" "s' = s2\<lparr>q_counter := (q_counter s2 + 1) mod length QUERY_TABLE\<rparr>"
        using assms r None g by (simp_all add: main_def)
      then show ?thesis using r None g Completed finished [of s1 s2] by simp
    next
      case (Aborted e)
      then have "out = Aborted e" "s' = s2\<lparr>q_counter := (q_counter s2 + 1) mod length QUERY_TABLE\<rparr>"
        using assms r None g by (simp_all add: main_def)
      then show ?thesis using r None g Aborted finished [of s1 s2] by simp
    qed
  qed
qed

lemma main_any:
  assumes "main env games ig ar s = (out, s')"
  shows "extends s s' \<and> trace_ok ig ar games s (new_events s s')
     \<and> ((\<forall>e. out \<noteq> Crashed e) \<longrightarrow> q_counter s' = (q_counter s + 1) mod length QUERY_TABLE)"
  using assms
proof (cases rule: main_cases)
  case (oauth e)
  note q = quiet_stepD [OF refresh_oauth_quiet [OF oauth(1)]]
  have "events s' = events s @ new_events (s\<lparr>cache := [], rejected := []\<rparr>) s'"
    using q(1) by simp
  from extendsI [OF this] show ?thesis using q(2) oauth(2) by (simp add: trace_ok_silent)
next
  case (crash s1 e)
  note q = quiet_stepD [OF refresh_oauth_quiet [OF crash(1)]]
  note l = games_loop_any [OF crash(2)]
  have ev: "events s1 = events s @ new_events (s\<lparr>cache := [], rejected := []\<rparr>) s1"
    using q(1) by simp
  have tr: "extends s s'"
    "new_events s s' = new_events (s\<lparr>cache := [], rejected := []\<rparr>) s1 @ new_events s1 s'"
    using step_chain [OF ev] l by simp_all
  have "trace_ok ig ar games s (new_events s1 s')"
    using l good_request_cong [of s1 s] q(5) by (simp add: trace_ok_def)
  then have "trace_ok ig ar games s (new_events s s')"
    using q(2) unfolding tr(2) trace_ok_def silent_def by simp
  then show ?thesis using tr(1) crash(3) by simp
next
  case (finished s1 s2)
  note q = quiet_stepD [OF refresh_oauth_quiet [OF finished(1)]]
  note l = games_loop_any [OF finished(2)]
  have ev: "events s1 = events s @ new_events (s\<lparr>cache := [], rejected := []\<rparr>) s1"
    using q(1) by simp
  have tr2: "extends s s2"
    "new_events s s2 = new_events (s\<lparr>cache := [], rejected := []\<rparr>) s1 @ new_events s1 s2"
    using step_chain [OF ev] l by simp_all
  have ev': "events s' = events s @ new_events s s2" using tr2(1) finished(4) by (simp add: extends_def)
  have tr: "extends s s'" "new_events s s' = new_events s s2" using extendsI [OF ev'] by simp_all
  have "trace_ok ig ar games s (new_events s1 s2)"
    using l good_request_cong [of s1 s] q(5) by (simp add: trace_ok_def)
  then have "trace_ok ig ar games s (new_events s s')"
    using q(2) unfolding tr(2) tr2(2) trace_ok_def silent_def by simp
  moreover have "q_counter s' = (q_counter s + 1) mod length QUERY_TABLE"
    using finished(4) l q(5) by simp
  ultimately show ?thesis using tr(1) by simp
qed

lemma main_completed:
  assumes "main env games ig ar s = (Completed, s')"
  shows "cache s' = [i \<leftarrow> listed (new_events s s'). i \<notin> set ar]
     \<and> set (rejected s') = {i \<in> set (listed (new_events s s')). i \<in> set ar}
          \<union> fst ` set (faulty (faults (new_events s s')))
     \<and> checks (new_events s s') = [i \<leftarrow> listed (new_events s s'). i \<notin> set ar \<and> i \<notin> set ig]
     \<and> map fst (faults (new_events s s')) = [i \<leftarrow> listed (new_events s s'). i \<notin> set ar \<and> i \<notin> set ig]
     \<and> puts (new_events s s') = map reject_call (faulty (faults (new_events s s')))"
  using assms
proof (cases rule: main_cases)
  case (finished s1 s2)
  note q = quiet_stepD [OF refresh_oauth_quiet [OF finished(1)]]
  note sl = silentD [OF q(2)]
  note l = games_loop_any [OF finished(2)] and c = games_loop_completed [OF finished(2)]
  have ev: "events s1 = events s @ new_events (s\<lparr>cache := [], rejected := []\<rparr>) s1"
    using q(1) by simp
  have tr2: "extends s s2"
    "new_events s s2 = new_events (s\<lparr>cache := [], rejected := []\<rparr>) s1 @ new_events s1 s2"
    using step_chain [OF ev] l by simp_all
  have ev': "events s' = events s @ new_events s s2" using tr2(1) finished(4) by (simp add: extends_def)
  have tr: "new_events s s' = new_events s s2" using extendsI [OF ev'] by simp
  have sums: "listed (new_events s s') = listed (new_events s1 s2)"
    "checks (new_events s s') = checks (new_events s1 s2)"
    "faults (new_events s s') = faults (new_events s1 s2)"
    "puts (new_events s s') = puts (new_events s1 s2)"
    unfolding tr tr2(2) using sl by simp_all
  have st: "cache s' = cache s2" "rejected s' = rejected s2" "cache s1 = []" "rejected s1 = []"
    using finished(4) q by simp_all
  show ?thesis unfolding sums st(1,2) using c st(3,4) by simp
qed simp_all

lemma main_aborted:
  assumes "main env games ig ar s = (Aborted e, s')"
  shows "(e = HTTPError \<or> e = ConnectionError)
     \<and> set ig \<subseteq> set (cache s') \<and> set ar \<subseteq> set (rejected s')"
  using assms
proof (cases rule: main_cases)
  case (finished s1 s2)
  from games_loop_aborted [OF finished(2)] finished(4) show ?thesis by simp
qed simp_all

section \<open>The example cycles, evaluated\<close>

lemma fixed_env_calls:
  "get_oauth (fixed_env b v k j) w = (None, w)"
  "get_videos (fixed_env b v k j) vid w = (v vid, w)"
  "urlopen_get (fixed_env b v k j) req w = (b (req_game req), w)"
  "urlopen_put (fixed_env b v k j) i reason w = (None, w)"
  "random53 (fixed_env b v k j) w = (k, w)"
  "randbelow (fixed_env b v k j) n w = (j, w)"
  "urlparse (fixed_env b v k j) = simple_urlparse"
  "parse_int (fixed_env b v k j) = decimal"
  by (simp_all add: fixed_env_def)

lemma celeste_fields:
  "game_id celeste = ''celeste''" "variable_id celeste = ''ver''"
  "default_ver celeste = ''none''" "game_id other_game = ''other''"
  by (simp_all add: celeste_def other_game_def)

lemma check_run_rta:
  "check_run (fixed_env b v k j) celeste run_rta s = (Inr [ERROR_SUBMITTED_RTA], s)"
  by (simp add: check_run_def)
     (simp add: run_rta_def fixed_env_calls celeste_def mk_run_def youtube_def
        simple_urlparse_def predicate_defs)

lemma check_run_ok:
  "check_run (fixed_env b v k j) celeste run_ok s = (Inr [], s)"
  by (simp add: check_run_def)
     (simp add: run_ok_def fixed_env_calls celeste_def mk_run_def youtube_def
        simple_urlparse_def predicate_defs)

lemma run_id_values:
  "getitem run_rta ''id'' = Inr (JStr ''r1'')" "getitem run_ok ''id'' = Inr (JStr ''r2'')"
  by (simp_all add: run_rta_def run_ok_def mk_run_def)

lemma source_runs:
  "bindE (source_twice g) (\<lambda>body. bindE (getitem body ''data'') py_iter)
     = Inr [run_rta, run_ok, run_rta]"
  "bindE (source_rta g) (\<lambda>body. bindE (getitem body ''data'') py_iter) = Inr [run_rta]"
  "bindE (source_empty g) (\<lambda>body. bindE (getitem body ''data'') py_iter) = Inr []"
  "bindE (source_down ''celeste'') (\<lambda>body. bindE (getitem body ''data'') py_iter)
     = Inr [run_rta]"
  "bindE (source_down ''other'') (\<lambda>body. bindE (getitem body ''data'') py_iter)
     = Inl HTTPError"
  "bindE (source_refused ''celeste'') (\<lambda>body. bindE (getitem body ''data'') py_iter)
     = Inr [run_rta]"
  "bindE (source_refused ''other'') (\<lambda>body. bindE (getitem body ''data'') py_iter)
     = Inl URLError"
  by (simp_all add: source_twice_def source_rta_def source_empty_def source_down_def
        source_refused_def)

lemma fetched_sources:
  "fetched (Get req (source_twice g)) = [run_rta, run_ok, run_rta]"
  "fetched (Get req (source_rta g)) = [run_rta]"
  "fetched (Get req (source_empty g)) = []"
  "fetched (Get req (source_down ''celeste'')) = [run_rta]"
  "fetched (Get req (source_down ''other'')) = []"
  by (simp_all add: source_twice_def source_rta_def source_empty_def source_down_def)

lemmas cycle_defs =
  main_def refresh_oauth_def game_body_def fetch_runs_def process_runs_def abort_cycle_def
  fixed_env_calls source_runs check_run_rta check_run_ok run_id_values
  query_field_def QUERY_TABLE_def rand_d_def randint_100_200_def init_def emit_def
  celeste_fields Let_def

lemma cycle_first_value: "cycle_first = (Completed, state_first)"
  by (simp add: cycle_first_def state_first_def twice_env_def cycle_defs)

lemma cycle_second_value:
  "cycle_second =
     (Completed,
      state_first
       \<lparr>cache := [JStr ''r2''], rejected := [JStr ''r1'', JStr ''r1''], q_counter := 2,
        events := events state_first @
          [OAuth None,
           Get (Request ''celeste'' ''desc'' ''category'' 100) (source_twice ''celeste'')]\<rparr>)"
  by (simp add: cycle_second_def cycle_first_value)
     (simp add: state_first_def twice_env_def cycle_defs)

lemma cycle_relisted_value:
  "cycle_relisted =
     (Completed,
      \<lparr>cache = [], rejected = [JStr ''r1''], q_counter = 1, world = (),
       events =
         [OAuth None,
          Get (Request ''celeste'' ''desc'' ''game'' 100) (source_rta ''celeste'')]\<rparr>)"
  by (simp add: cycle_relisted_def rta_env_def cycle_defs)

lemma cycle_forgets_value:
  "cycle_forgets =
     (Completed,
      \<lparr>cache = [], rejected = [], q_counter = 1, world = (),
       events =
         [OAuth None,
          Get (Request ''celeste'' ''desc'' ''game'' 100) (source_empty ''celeste'')]\<rparr>)"
  by (simp add: cycle_forgets_def quiet_env_def cycle_defs)

lemma cycle_down_value:
  "cycle_down =
     (Aborted HTTPError,
      \<lparr>cache = [JStr ''r1'', JStr ''old''], rejected = [JStr ''r1'', JStr ''gone''],
       q_counter = 1, world = (),
       events =
         [OAuth None,
          Get (Request ''celeste'' ''desc'' ''game'' 100) (source_down ''celeste''),
          Check (JStr ''r1''), Faults (JStr ''r1'') [ERROR_SUBMITTED_RTA],
          Print (Found (JStr ''r1'') [ERROR_SUBMITTED_RTA]),
          Put (JStr ''r1'') (full_reason [ERROR_SUBMITTED_RTA]) None,
          Print (Rejected (JStr ''r1'')),
          Get (Request ''other'' ''desc'' ''game'' 100) (source_down ''other''),
          Print HTTPErrorLine]\<rparr>)"
  by (simp add: cycle_down_def down_env_def cycle_defs)

lemma cycle_refused_value: "cycle_refused = (Crashed URLError, state_refused)"
  by (simp add: cycle_refused_def state_refused_def refused_env_def cycle_defs)

section \<open>The reason text\<close>

text \<open>
  C7. A fault list of length 1 gives the singular prefix and that fault's explanation;
  length 2 gives the plural prefix and the two explanations joined by \<^verbatim>\<open>" || "\<close> in
  the order of the list; length 3 or more gives the fixed general message, whichever
  faults are present. Every reject call of \<open>reject_runs\<close> carries the reason composed
  from the fault list of its run.
\<close>

theorem full_reason_by_length:
  "full_reason [f] =
     ''BadelineBot found the following problem with your submission, please edit it accordingly: ''
       @ REASON_TEXT f
   \<and> full_reason [f, f'] =
     ''BadelineBot found the following problems with your submission, please edit it accordingly: ''
       @ REASON_TEXT f @ '' || '' @ REASON_TEXT f'
   \<and> (3 \<le> length fs \<longrightarrow> full_reason fs =
     ''BadelineBot found various issues with your submission, please read the rules or contact a moderator/verifier.'')
   \<and> (reject_runs env fl s = (r, s') \<longrightarrow>
        (\<forall>p \<in> set (puts (new_events s s')).
           \<exists>x \<in> set fl. fst p = fst x \<and> fst (snd p) = full_reason (snd x)))"
proof -
  have one: "full_reason [f] =
     ''BadelineBot found the following problem with your submission, please edit it accordingly: ''
       @ REASON_TEXT f"
    by (simp add: full_reason_def BASE_REASON_def ACCOUNT_NAME_def)
  have two: "full_reason [f, f'] =
     ''BadelineBot found the following problems with your submission, please edit it accordingly: ''
       @ REASON_TEXT f @ '' || '' @ REASON_TEXT f'"
    by (simp add: full_reason_def BASE_REASON_def ACCOUNT_NAME_def)
  have many: "3 \<le> length fs \<longrightarrow> full_reason fs =
     ''BadelineBot found various issues with your submission, please read the rules or contact a moderator/verifier.''"
    by (simp add: full_reason_def GENERIC_REASON_def ACCOUNT_NAME_def)
  have calls: "reject_runs env fl s = (r, s') \<longrightarrow>
        (\<forall>p \<in> set (puts (new_events s s')).
           \<exists>x \<in> set fl. fst p = fst x \<and> fst (snd p) = full_reason (snd x))"
    using reject_runs_any [of env fl s r s'] by blast
  from one two many calls show ?thesis by blast
qed

theorem full_reason_by_length_witness:
  "3 \<le> length [ERROR_NO_VERSION, ERROR_INVALID_IGT, ERROR_BAD_VOD]
   \<and> full_reason [ERROR_NO_VERSION, ERROR_INVALID_IGT, ERROR_BAD_VOD] =
     ''BadelineBot found various issues with your submission, please read the rules or contact a moderator/verifier.''
   \<and> puts (new_events (init ())
        (snd (reject_runs quiet_env [(JStr ''r1'', [ERROR_SUBMITTED_RTA, ERROR_BAD_VOD])] (init ())))) =
      [(JStr ''r1'', full_reason [ERROR_SUBMITTED_RTA, ERROR_BAD_VOD], None)]
   \<and> full_reason [ERROR_SUBMITTED_RTA, ERROR_BAD_VOD] =
     ''BadelineBot found the following problems with your submission, please edit it accordingly: ''
       @ REASON_TEXT ERROR_SUBMITTED_RTA @ '' || '' @ REASON_TEXT ERROR_BAD_VOD"
proof -
  have len: "3 \<le> length [ERROR_NO_VERSION, ERROR_INVALID_IGT, ERROR_BAD_VOD]" by simp
  have calls: "puts (new_events (init ())
        (snd (reject_runs quiet_env [(JStr ''r1'', [ERROR_SUBMITTED_RTA, ERROR_BAD_VOD])] (init ())))) =
      [(JStr ''r1'', full_reason [ERROR_SUBMITTED_RTA, ERROR_BAD_VOD], None)]"
    by (simp add: quiet_env_def fixed_env_def init_def new_events_def Let_def)
  show ?thesis
    using len calls
      full_reason_by_length [of ERROR_SUBMITTED_RTA ERROR_BAD_VOD
        "[ERROR_NO_VERSION, ERROR_INVALID_IGT, ERROR_BAD_VOD]" quiet_env
        "[(JStr ''r1'', [ERROR_SUBMITTED_RTA, ERROR_BAD_VOD])]" "init ()"
        "fst (reject_runs quiet_env [(JStr ''r1'', [ERROR_SUBMITTED_RTA, ERROR_BAD_VOD])] (init ()))"
        "snd (reject_runs quiet_env [(JStr ''r1'', [ERROR_SUBMITTED_RTA, ERROR_BAD_VOD])] (init ()))"]
    by blast
qed

section \<open>The in-game time\<close>

text \<open>
  C8. The submission with \<^verbatim>\<open>"ingame_t": 1.003\<close>, that is 1003 ms \<open>= 59 * 17\<close> ms:
  \<^verbatim>\<open>1000 * 1.003\<close> is the double \<^verbatim>\<open>1002.9999999999999\<close>, \<^verbatim>\<open>int\<close> cuts it down to 1002,
  and \<open>valid_in_game_time\<close> answers \<open>False\<close>, so that the checks end with the fault
  \<open>ERROR_INVALID_IGT\<close>. (\<open>float_1_003\<close> is the double nearest to 1.003: it lies within
  half a unit of its last place.)
\<close>

theorem valid_in_game_time_truncates:
  "valid_in_game_time env run_1_003 = Inr False
   \<and> fst (check_run quiet_env celeste run_1_003 (init ())) = Inr [ERROR_INVALID_IGT]
   \<and> py_mul1000 (JFloat float_1_003) = Inr (JFloat (Finite 8822481301274623 (- 43)))
   \<and> int_of_float (Finite 8822481301274623 (- 43)) = Inr 1002
   \<and> float_1_003 = Finite 4517110426252607 (- 52)
   \<and> \<bar>1000 * 4517110426252607 - 1003 * 2 ^ 52\<bar> \<le> (500 :: int)
   \<and> (1003 :: int) mod 17 = 0"
proof -
  have mul: "py_mul1000 (JFloat float_1_003) = Inr (JFloat (Finite 8822481301274623 (- 43)))"
    by (simp add: float_1_003_def float_defs)
  have cut: "int_of_float (Finite 8822481301274623 (- 43)) = Inr 1002"
    by simp
  have igt: "valid_in_game_time env run_1_003 = Inr False"
    using mul cut by (simp add: valid_in_game_time_def run_1_003_def mk_run_def)
  have "valid_in_game_time quiet_env run_1_003 = Inr False"
    using mul cut by (simp add: valid_in_game_time_def run_1_003_def mk_run_def)
  then have chk: "fst (check_run quiet_env celeste run_1_003 (init ())) = Inr [ERROR_INVALID_IGT]"
    by (simp add: check_run_def)
       (simp add: run_1_003_def example_defs predicate_defs)
  show ?thesis
    using mul cut igt chk by (simp add: float_1_003_def)
qed

section \<open>Submissions without a video\<close>

lemma vod_missing_key:
  assumes "getitem run ''videos'' = Inl KeyError \<or>
           (\<exists>v. getitem run ''videos'' = Inr v \<and> getitem v ''links'' = Inl KeyError)"
  shows "valid_persistent_vod env run s = (Inr False, s)"
  using assms by (auto simp: valid_persistent_vod_def outer_handlers_def)

lemma vod_empty_links:
  assumes "\<exists>v. getitem run ''videos'' = Inr v \<and> getitem v ''links'' = Inr (JArr [])"
  shows "valid_persistent_vod env run s = (Inr True, s)"
  using assms by (auto simp: valid_persistent_vod_def outer_handlers_def)


lemma check_run_bad_vod:
  assumes "\<And>s1. valid_persistent_vod env run s1 = (Inr False, s1)"
    and "check_run env g run s = (Inr fs, s')"
  shows "ERROR_BAD_VOD \<in> set fs"
  using assms(2)
  by (auto simp: check_run_def assms(1) fault_if_not_def split: sum.splits prod.splits)

lemma check_run_good_vod:
  assumes "\<And>s1. valid_persistent_vod env run s1 = (Inr True, s1)"
    and "check_run env g run s = (Inr fs, s')"
  shows "ERROR_BAD_VOD \<notin> set fs"
  using assms(2)
  by (auto simp: check_run_def assms(1) fault_if_not_def split: sum.splits prod.splits if_splits)

text \<open>
  C3, as the claim states it, fails: a submission whose list of links is present and
  empty passes the check, and no fault is recorded for it.
\<close>

theorem vod_empty_links_counterexample:
  "getitem run_empty_links ''videos'' = Inr no_links
   \<and> getitem no_links ''links'' = Inr (JArr [])
   \<and> fst (valid_persistent_vod quiet_env run_empty_links (init ())) = Inr True
   \<and> fst (check_run quiet_env celeste run_empty_links (init ())) = Inr []"
  by (simp add: check_run_def)
     (simp add: run_empty_links_def example_defs predicate_defs)

text \<open>
  C3, amended. For every submission that has no \<^verbatim>\<open>"videos"\<close> key, or whose videos have
  no \<^verbatim>\<open>"links"\<close> key, \<open>valid_persistent_vod\<close> returns \<open>False\<close>, and the fault
  \<open>ERROR_BAD_VOD\<close> is in every fault list that the checks end with. For a list of links
  that is present and empty it returns \<open>True\<close>, and the fault \<open>ERROR_BAD_VOD\<close> is in no
  fault list that the checks end with.
\<close>

theorem vod_missing_key_invalid:
  "(getitem run ''videos'' = Inl KeyError
      \<or> (\<exists>v. getitem run ''videos'' = Inr v \<and> getitem v ''links'' = Inl KeyError)
    \<longrightarrow> valid_persistent_vod env run s = (Inr False, s)
        \<and> (\<forall>fs s'. check_run env g run s = (Inr fs, s') \<longrightarrow> ERROR_BAD_VOD \<in> set fs))
   \<and> ((\<exists>v. getitem run ''videos'' = Inr v \<and> getitem v ''links'' = Inr (JArr []))
    \<longrightarrow> valid_persistent_vod env run s = (Inr True, s)
        \<and> (\<forall>fs s'. check_run env g run s = (Inr fs, s') \<longrightarrow> ERROR_BAD_VOD \<notin> set fs))"
  using vod_missing_key [of run env] vod_empty_links [of run env]
    check_run_bad_vod [of env run g s] check_run_good_vod [of env run g s]
  by blast

theorem vod_missing_key_invalid_witness:
  "getitem run_no_video ''videos'' = Inl KeyError
   \<and> valid_persistent_vod quiet_env run_no_video (init ()) = (Inr False, init ())
   \<and> check_run quiet_env celeste run_no_video (init ()) = (Inr [ERROR_BAD_VOD], init ())
   \<and> ERROR_BAD_VOD \<in> set [ERROR_BAD_VOD]
   \<and> getitem run_empty_links ''videos'' = Inr no_links
   \<and> getitem no_links ''links'' = Inr (JArr [])
   \<and> valid_persistent_vod quiet_env run_empty_links (init ()) = (Inr True, init ())
   \<and> check_run quiet_env celeste run_empty_links (init ()) = (Inr [], init ())
   \<and> ERROR_BAD_VOD \<notin> set []"
proof -
  have a: "getitem run_no_video ''videos'' = Inl KeyError"
    by (simp add: run_no_video_def)
  have b: "check_run quiet_env celeste run_no_video (init ()) = (Inr [ERROR_BAD_VOD], init ())"
    by (simp add: check_run_def)
       (simp add: run_no_video_def example_defs predicate_defs)
  have c: "getitem run_empty_links ''videos'' = Inr no_links"
    "getitem no_links ''links'' = Inr (JArr [])"
    by (simp_all add: run_empty_links_def mk_run_def no_links_def)
  have d: "check_run quiet_env celeste run_empty_links (init ()) = (Inr [], init ())"
    by (simp add: check_run_def)
       (simp add: run_empty_links_def example_defs predicate_defs)
  show ?thesis
    using a b c d
      vod_missing_key_invalid [of run_no_video quiet_env "init ()" celeste]
      vod_missing_key_invalid [of run_empty_links quiet_env "init ()" celeste]
    by auto
qed

section \<open>When the rule predicates return a boolean\<close>

lemma mul1000_not_nan:
  "(\<exists>m' e'. mul1000 (Finite m e) = Finite m' e') \<or> (\<exists>sg. mul1000 (Finite m e) = Infinite sg)"
  by (simp add: float_round_def mk_float_def Let_def)

lemma in_game_time_float:
  assumes "getitem run ''times'' = Inr t" "getitem t ''ingame_t'' = Inr (JFloat (Finite m e))"
  shows "(\<exists>m' e'. mul1000 (Finite m e) = Finite m' e'
            \<and> (\<exists>b. valid_in_game_time env run = Inr b))
       \<or> (\<exists>sg. mul1000 (Finite m e) = Infinite sg
            \<and> valid_in_game_time env run = Inl OverflowError)"
  using mul1000_not_nan [of m e] assms
  by (auto simp: valid_in_game_time_def)

lemma getitem_JObj: "getitem (JObj kvs) k = Inl e \<Longrightarrow> e = KeyError"
  by (simp split: option.splits)

lemma invalid_ver_item_scalar:
  assumes "\<forall>xs. p \<noteq> JArr xs" "\<forall>xs. p \<noteq> JObj xs" "invalid_ver_item kvs p = Inl e"
  shows "e = KeyError"
  using assms by (cases p) (simp_all split: option.splits)

lemma existing_version_total:
  assumes "getitem run ''values'' = Inr (JObj kvs)" "platform_of run = Inr p"
    "\<forall>xs. p \<noteq> JArr xs" "\<forall>xs. p \<noteq> JObj xs"
  shows "\<exists>b s'. valid_existing_version run g s = (Inr b, s')"
proof (cases "getitem (JObj kvs) (variable_id g)")
  case (Inl e)
  then have "e = KeyError" by (rule getitem_JObj)
  then show ?thesis using assms(1,2) Inl by (auto simp: valid_existing_version_def)
next
  case (Inr v)
  show ?thesis
  proof (cases "invalid_ver_item (invalid_ver g) p")
    case (Inl e)
    then have "e = KeyError" using assms(3,4) invalid_ver_item_scalar by blast
    then show ?thesis using assms(1,2) Inr Inl by (auto simp: valid_existing_version_def)
  next
    case vs: (Inr vs)
    then show ?thesis using assms(1,2) Inr by (auto simp: valid_existing_version_def)
  qed
qed

lemma first_twitch_total:
  "readable_links env links \<Longrightarrow>
     (\<exists>opt. first_twitch env links = Inr opt) \<or> first_twitch env links = Inl KeyError"
proof (induction links)
  case Nil
  then show ?case by simp
next
  case (Cons x links)
  then obtain kvs where x: "x = JObj kvs"
    and u: "\<And>u. getitem x ''uri'' = Inr u \<Longrightarrow> \<exists>par. urlparse env u = Inr par"
    and rest: "readable_links env links"
    by (auto simp: readable_links_def)
  show ?case
  proof (cases "getitem x ''uri''")
    case (Inl e)
    then have "e = KeyError" using x getitem_JObj by blast
    then show ?thesis using Inl by simp
  next
    case (Inr uri)
    then obtain par where "urlparse env uri = Inr par" using u by blast
    then show ?thesis using Inr Cons.IH [OF rest] by simp
  qed
qed

lemma lookup_video_total:
  assumes "handled_lookup env" "lookup_video env path s = (r, s')"
  shows "(\<exists>b. r = Inr b)
       \<or> r = Inl KeyError \<or> r = Inl IndexError \<or> r = Inl ValueError \<or> r = Inl TwitchException"
proof (cases "bindE (index (split_on CHR ''/'' path) 2) (\<lambda>seg.
           case parse_int env seg of None \<Rightarrow> Inl ValueError | Some n \<Rightarrow> Inr n)")
  case (Inl e)
  then have "e = IndexError \<or> e = ValueError"
    by (auto simp: index_def bindE_def split: if_splits option.splits)
  moreover have "r = Inl e" using assms(2) Inl by (simp add: lookup_video_def)
  ultimately show ?thesis by blast
next
  case (Inr vid)
  define res where "res = fst (get_videos env vid (world s))"
  have r: "r = bindE res (\<lambda>vids. bindE (index vids 0) (\<lambda>vid_data.
             bindE (getitem vid_data ''type'') (\<lambda>ty. Inr (\<not> (ty = JStr ''archive'')))))"
    using assms(2) Inr by (simp add: lookup_video_def res_def Let_def split: prod.splits)
  have h: "case res of
        Inl e \<Rightarrow> e = KeyError \<or> e = IndexError \<or> e = ValueError \<or> e = TwitchException
      | Inr vids \<Rightarrow> (\<forall>v \<in> set vids. \<exists>kvs. v = JObj kvs)"
    using assms(1) unfolding handled_lookup_def res_def by blast
  show ?thesis
  proof (cases res)
    case (Inl e)
    then show ?thesis using r h by auto
  next
    case vids: (Inr vids)
    show ?thesis
    proof (cases vids)
      case Nil
      then show ?thesis using r vids by (simp add: index_def)
    next
      case (Cons v rest)
      then obtain kvs where "v = JObj kvs" using h vids by auto
      then show ?thesis using r vids Cons
        by (cases "map_of kvs ''type''") (simp_all add: index_def)
    qed
  qed
qed

lemma vod_total:
  assumes "handled_lookup env"
    and "getitem run ''videos'' = Inl KeyError
      \<or> (\<exists>kvs. getitem run ''videos'' = Inr (JObj kvs)
           \<and> (getitem (JObj kvs) ''links'' = Inl KeyError
                \<or> (\<exists>links. getitem (JObj kvs) ''links'' = Inr (JArr links)
                      \<and> readable_links env links)))"
  shows "\<exists>b s'. valid_persistent_vod env run s = (Inr b, s')"
proof -
  let ?scan = "bindE (getitem run ''videos'') (\<lambda>videos.
             bindE (getitem videos ''links'') (\<lambda>link_list.
             bindE (py_iter link_list) (first_twitch env)))"
  have scan: "(\<exists>opt. ?scan = Inr opt) \<or> ?scan = Inl KeyError"
    using assms(2) first_twitch_total [of env] by fastforce
  show ?thesis
  proof (cases ?scan)
    case (Inl e)
    then have "e = KeyError" using scan by simp
    then show ?thesis using Inl by (auto simp: valid_persistent_vod_def outer_handlers_def)
  next
    case (Inr opt)
    show ?thesis
    proof (cases opt)
      case None
      then show ?thesis using Inr by (auto simp: valid_persistent_vod_def outer_handlers_def)
    next
      case (Some par)
      obtain r s1 where lv: "lookup_video env (snd par) s = (r, s1)" by fastforce
      from lookup_video_total [OF assms(1) lv]
      have "\<exists>b s'. outer_handlers (inner_handlers (r, s1)) = (Inr b, s')"
        by (auto simp: inner_handlers_def outer_handlers_def)
      then show ?thesis using Inr Some lv by (simp add: valid_persistent_vod_def)
    qed
  qed
qed

lemma vod_null:
  "getitem run ''videos'' = Inr JNull \<Longrightarrow> valid_persistent_vod env run s = (Inl TypeError, s)"
  by (simp add: valid_persistent_vod_def outer_handlers_def)


text \<open>
  C4, as the claim states it, fails: for a submission whose selected values lack the
  game's variable, the \<^verbatim>\<open>KeyError\<close> leaves \<open>valid_default_version\<close>, and with it the
  validity checks. Nor are the other predicates total: \<^verbatim>\<open>TypeError\<close> leaves
  \<open>valid_persistent_vod\<close> for videos that are \<^verbatim>\<open>null\<close>, an exception of the video lookup
  that is no Twitch exception leaves it too, and \<^verbatim>\<open>OverflowError\<close> leaves
  \<open>valid_in_game_time\<close> for a float time beyond the range of a double.
\<close>

theorem default_version_counterexample:
  "getitem run_no_version ''values'' = Inr (JObj [])
   \<and> getitem (JObj []) (variable_id celeste) = Inl KeyError
   \<and> valid_default_version run_no_version celeste = Inl KeyError
   \<and> fst (check_run quiet_env celeste run_no_version (init ())) = Inl KeyError
   \<and> fst (valid_persistent_vod quiet_env run_null_videos (init ())) = Inl TypeError
   \<and> fst (valid_persistent_vod lookup_down_env run_twitch (init ())) = Inl OtherError
   \<and> valid_in_game_time quiet_env run_huge_time = Inl OverflowError"
proof -
  have a: "getitem run_no_version ''values'' = Inr (JObj [])
   \<and> getitem (JObj []) (variable_id celeste) = Inl KeyError
   \<and> valid_default_version run_no_version celeste = Inl KeyError
   \<and> fst (check_run quiet_env celeste run_no_version (init ())) = Inl KeyError"
    by (simp add: check_run_def)
       (simp add: run_no_version_def example_defs predicate_defs)
  have b: "fst (valid_persistent_vod quiet_env run_null_videos (init ())) = Inl TypeError"
    by (simp add: run_null_videos_def mk_run_def vod_null)
  have c: "fst (valid_persistent_vod lookup_down_env run_twitch (init ())) = Inl OtherError"
    by (simp add: run_twitch_def twitch_def mk_run_def lookup_down_env_def lookup_down_def
          fixed_env_calls simple_urlparse_def decimal_def digit_value_def
          valid_persistent_vod_def lookup_video_def index_def
          inner_handlers_def outer_handlers_def Let_def)
  have d: "valid_in_game_time quiet_env run_huge_time = Inl OverflowError"
    by (simp add: valid_in_game_time_def run_huge_time_def mk_run_def float_defs)
  show ?thesis by (intro conjI a [THEN conjunct1]
        a [THEN conjunct2, THEN conjunct1] a [THEN conjunct2, THEN conjunct2, THEN conjunct1]
        a [THEN conjunct2, THEN conjunct2, THEN conjunct2] b c d)
qed

text \<open>
  C4, amended. For a submission whose selected values lack the game's variable,
  \<open>valid_existing_version\<close> is skipped defensively: it returns \<open>True\<close> and prints its
  line, provided the platform of the submission can be read; \<open>valid_default_version\<close>
  has no handler and raises \<^verbatim>\<open>KeyError\<close>, which also ends the validity checks of a
  submission that passed the real-time check. Apart from that, every rule predicate
  returns a boolean for every submission that has the fields it reads:
  the real-time rule, when the real time is there; the default-version rule, when the
  variable is selected; the in-game-time rule, for a whole number of seconds and for
  every float whose product with 1000 is still a double (beyond that it raises
  \<^verbatim>\<open>OverflowError\<close>); \<open>valid_existing_version\<close>, when the selected values are an
  object and the platform is there and is no list or object; and
  \<open>valid_persistent_vod\<close>, when the videos are missing or an object whose links are
  missing or a list of readable links, and the video lookup fails only in the ways that
  the handlers name. For videos that are \<^verbatim>\<open>null\<close> it raises \<^verbatim>\<open>TypeError\<close>.
\<close>

theorem version_rules_missing_variable:
  "(getitem run ''values'' = Inr vals \<and> getitem vals (variable_id g) = Inl KeyError
    \<longrightarrow> valid_default_version run g = Inl KeyError
        \<and> (\<forall>b. valid_real_time run = Inr b \<longrightarrow> check_run env g run s = (Inl KeyError, s))
        \<and> (\<forall>p. platform_of run = Inr p
              \<longrightarrow> valid_existing_version run g s = (Inr True, emit (Print (PlatformError p)) s)))
   \<and> (getitem run ''times'' = Inr t \<and> getitem t ''realtime_t'' = Inr v
    \<longrightarrow> valid_real_time run = Inr (eq_zero v))
   \<and> (getitem run ''values'' = Inr vals \<and> getitem vals (variable_id g) = Inr v'
    \<longrightarrow> valid_default_version run g = Inr (v' \<noteq> JStr (default_ver g)))
   \<and> (getitem run ''times'' = Inr t \<and> getitem t ''ingame_t'' = Inr (JInt n)
    \<longrightarrow> valid_in_game_time env run = Inr (1000 * n mod 17 = 0))
   \<and> (getitem run ''times'' = Inr t \<and> getitem t ''ingame_t'' = Inr (JFloat (Finite m e))
    \<longrightarrow> (\<exists>m' e'. mul1000 (Finite m e) = Finite m' e'
            \<and> (\<exists>b. valid_in_game_time env run = Inr b))
        \<or> (\<exists>sg. mul1000 (Finite m e) = Infinite sg
            \<and> valid_in_game_time env run = Inl OverflowError))
   \<and> (getitem run ''values'' = Inr (JObj kvs) \<and> platform_of run = Inr p
        \<and> (\<forall>xs. p \<noteq> JArr xs) \<and> (\<forall>xs. p \<noteq> JObj xs)
    \<longrightarrow> (\<exists>b s'. valid_existing_version run g s = (Inr b, s')))
   \<and> (handled_lookup env
        \<and> (getitem run ''videos'' = Inl KeyError
            \<or> (\<exists>vs. getitem run ''videos'' = Inr (JObj vs)
                 \<and> (getitem (JObj vs) ''links'' = Inl KeyError
                      \<or> (\<exists>links. getitem (JObj vs) ''links'' = Inr (JArr links)
                            \<and> readable_links env links))))
    \<longrightarrow> (\<exists>b s'. valid_persistent_vod env run s = (Inr b, s')))
   \<and> (getitem run ''videos'' = Inr JNull
    \<longrightarrow> valid_persistent_vod env run s = (Inl TypeError, s))"
proof -
  have a: "getitem run ''values'' = Inr vals \<and> getitem vals (variable_id g) = Inl KeyError
    \<longrightarrow> valid_default_version run g = Inl KeyError
        \<and> (\<forall>b. valid_real_time run = Inr b \<longrightarrow> check_run env g run s = (Inl KeyError, s))
        \<and> (\<forall>p. platform_of run = Inr p
              \<longrightarrow> valid_existing_version run g s = (Inr True, emit (Print (PlatformError p)) s))"
    by (auto simp: valid_default_version_def valid_existing_version_def check_run_def)
  have b: "getitem run ''times'' = Inr t \<and> getitem t ''realtime_t'' = Inr v
    \<longrightarrow> valid_real_time run = Inr (eq_zero v)"
    by (simp add: valid_real_time_def)
  have c: "getitem run ''values'' = Inr vals \<and> getitem vals (variable_id g) = Inr v'
    \<longrightarrow> valid_default_version run g = Inr (v' \<noteq> JStr (default_ver g))"
    by (simp add: valid_default_version_def)
  have d: "getitem run ''times'' = Inr t \<and> getitem t ''ingame_t'' = Inr (JInt n)
    \<longrightarrow> valid_in_game_time env run = Inr (1000 * n mod 17 = 0)"
    by (simp add: valid_in_game_time_def)
  have e: "getitem run ''times'' = Inr t \<and> getitem t ''ingame_t'' = Inr (JFloat (Finite m e))
    \<longrightarrow> (\<exists>m' e'. mul1000 (Finite m e) = Finite m' e'
            \<and> (\<exists>b. valid_in_game_time env run = Inr b))
        \<or> (\<exists>sg. mul1000 (Finite m e) = Infinite sg
            \<and> valid_in_game_time env run = Inl OverflowError)"
    using in_game_time_float [of run t m e env] by blast
  have f: "getitem run ''values'' = Inr (JObj kvs) \<and> platform_of run = Inr p
        \<and> (\<forall>xs. p \<noteq> JArr xs) \<and> (\<forall>xs. p \<noteq> JObj xs)
    \<longrightarrow> (\<exists>b s'. valid_existing_version run g s = (Inr b, s'))"
    using existing_version_total [of run kvs p g s] by blast
  have g: "handled_lookup env
        \<and> (getitem run ''videos'' = Inl KeyError
            \<or> (\<exists>vs. getitem run ''videos'' = Inr (JObj vs)
                 \<and> (getitem (JObj vs) ''links'' = Inl KeyError
                      \<or> (\<exists>links. getitem (JObj vs) ''links'' = Inr (JArr links)
                            \<and> readable_links env links))))
    \<longrightarrow> (\<exists>b s'. valid_persistent_vod env run s = (Inr b, s'))"
    using vod_total [of env run s] by blast
  have h: "getitem run ''videos'' = Inr JNull
    \<longrightarrow> valid_persistent_vod env run s = (Inl TypeError, s)"
    using vod_null [of run env s] by blast
  show ?thesis by (intro conjI a b c d e f g h)
qed

lemma run_ok_fields:
  "getitem run_ok ''times'' = Inr (JObj [(''realtime_t'', JInt 0), (''ingame_t'', JInt 34)])"
  "getitem (JObj [(''realtime_t'', JInt 0), (''ingame_t'', JInt 34)]) ''realtime_t'' = Inr (JInt 0)"
  "getitem (JObj [(''realtime_t'', JInt 0), (''ingame_t'', JInt 34)]) ''ingame_t'' = Inr (JInt 34)"
  "getitem run_ok ''values'' = Inr (JObj [(''ver'', JStr ''1.4'')])"
  "getitem (JObj [(''ver'', JStr ''1.4'')]) (variable_id celeste) = Inr (JStr ''1.4'')"
  "platform_of run_ok = Inr (JStr ''pc'')"
  "getitem run_ok ''videos'' = Inr (JObj [(''links'', JArr [JObj [(''uri'', JStr ''https://youtu.be/abc'')]])])"
  "getitem (JObj [(''links'', JArr [JObj [(''uri'', JStr ''https://youtu.be/abc'')]])]) ''links''
     = Inr (JArr [JObj [(''uri'', JStr ''https://youtu.be/abc'')]])"
  by (simp_all add: run_ok_def mk_run_def celeste_def platform_of_def youtube_def)

lemma quiet_env_copes:
  "handled_lookup quiet_env"
  "readable_links quiet_env [JObj [(''uri'', JStr ''https://youtu.be/abc'')]]"
  by (simp_all add: handled_lookup_def readable_links_def quiet_env_def fixed_env_def
        no_videos_def simple_urlparse_def Let_def)

lemma float_times:
  "getitem run_1_003 ''times'' = Inr (JObj [(''realtime_t'', JInt 0), (''ingame_t'', JFloat float_1_003)])"
  "getitem (JObj [(''realtime_t'', JInt 0), (''ingame_t'', JFloat float_1_003)]) ''ingame_t''
     = Inr (JFloat (Finite 4517110426252607 (- 52)))"
  "mul1000 (Finite 4517110426252607 (- 52)) = Finite 8822481301274623 (- 43)"
  "getitem run_huge_time ''times'' = Inr (JObj [(''realtime_t'', JInt 0), (''ingame_t'', JFloat (Finite 1 1020))])"
  "getitem (JObj [(''realtime_t'', JInt 0), (''ingame_t'', JFloat (Finite 1 1020))]) ''ingame_t''
     = Inr (JFloat (Finite 1 1020))"
  "mul1000 (Finite 1 1020) = Infinite False"
  by (simp_all add: run_1_003_def run_huge_time_def mk_run_def float_1_003_def float_defs)

theorem version_rules_missing_variable_witness:
  "getitem run_no_version ''values'' = Inr (JObj [])
   \<and> getitem (JObj []) (variable_id celeste) = Inl KeyError
   \<and> valid_default_version run_no_version celeste = Inl KeyError
   \<and> valid_real_time run_no_version = Inr True
   \<and> check_run quiet_env celeste run_no_version (init ()) = (Inl KeyError, init ())
   \<and> platform_of run_no_version = Inr (JStr ''pc'')
   \<and> valid_existing_version run_no_version celeste (init ())
       = (Inr True, emit (Print (PlatformError (JStr ''pc''))) (init ()))
   \<and> valid_real_time run_ok = Inr True
   \<and> valid_in_game_time quiet_env run_ok = Inr True
   \<and> valid_default_version run_ok celeste = Inr True
   \<and> (\<exists>b s'. valid_existing_version run_ok celeste (init ()) = (Inr b, s'))
   \<and> handled_lookup quiet_env
   \<and> readable_links quiet_env [JObj [(''uri'', JStr ''https://youtu.be/abc'')]]
   \<and> (\<exists>b s'. valid_persistent_vod quiet_env run_ok (init ()) = (Inr b, s'))
   \<and> mul1000 (Finite 4517110426252607 (- 52)) = Finite 8822481301274623 (- 43)
   \<and> (\<exists>b. valid_in_game_time quiet_env run_1_003 = Inr b)
   \<and> mul1000 (Finite 1 1020) = Infinite False
   \<and> valid_in_game_time quiet_env run_huge_time = Inl OverflowError
   \<and> getitem run_null_videos ''videos'' = Inr JNull
   \<and> valid_persistent_vod quiet_env run_null_videos (init ()) = (Inl TypeError, init ())"
proof -
  have a: "getitem run_no_version ''values'' = Inr (JObj [])"
    "getitem (JObj []) (variable_id celeste) = Inl KeyError"
    "valid_real_time run_no_version = Inr True"
    "platform_of run_no_version = Inr (JStr ''pc'')"
    by (simp_all add: run_no_version_def celeste_def valid_real_time_def platform_of_def)
  have c: "default_ver celeste = ''none''" by (simp add: celeste_def)
  have n: "getitem run_null_videos ''videos'' = Inr JNull"
    by (simp add: run_null_videos_def mk_run_def)
  note t1 = version_rules_missing_variable [where run = run_no_version and g = celeste
      and env = quiet_env and s = "init ()" and vals = "JObj []"]
  note t2 = version_rules_missing_variable [where run = run_ok and g = celeste
      and env = quiet_env and s = "init ()" and vals = "JObj [(''ver'', JStr ''1.4'')]"
      and t = "JObj [(''realtime_t'', JInt 0), (''ingame_t'', JInt 34)]" and v = "JInt 0"
      and v' = "JStr ''1.4''" and n = 34 and kvs = "[(''ver'', JStr ''1.4'')]"
      and p = "JStr ''pc''"]
  note t3 = version_rules_missing_variable [where run = run_1_003 and env = quiet_env
      and t = "JObj [(''realtime_t'', JInt 0), (''ingame_t'', JFloat float_1_003)]"
      and m = 4517110426252607 and e = "- 52"]
  note t4 = version_rules_missing_variable [where run = run_huge_time and env = quiet_env
      and t = "JObj [(''realtime_t'', JInt 0), (''ingame_t'', JFloat (Finite 1 1020))]"
      and m = 1 and e = 1020]
  note t5 = version_rules_missing_variable [where run = run_null_videos and env = quiet_env
      and s = "init ()"]
  have w1: "valid_default_version run_no_version celeste = Inl KeyError
      \<and> check_run quiet_env celeste run_no_version (init ()) = (Inl KeyError, init ())
      \<and> valid_existing_version run_no_version celeste (init ())
          = (Inr True, emit (Print (PlatformError (JStr ''pc''))) (init ()))"
    using t1 [THEN conjunct1] a by blast
  have w2: "valid_real_time run_ok = Inr True"
    using t2 [THEN conjunct2, THEN conjunct1] run_ok_fields by simp
  have w3: "valid_default_version run_ok celeste = Inr True"
    using t2 [THEN conjunct2, THEN conjunct2, THEN conjunct1] run_ok_fields c by simp
  have w4: "valid_in_game_time quiet_env run_ok = Inr True"
    using t2 [THEN conjunct2, THEN conjunct2, THEN conjunct2, THEN conjunct1] run_ok_fields
    by simp
  have w5: "\<exists>b s'. valid_existing_version run_ok celeste (init ()) = (Inr b, s')"
    using t2 [THEN conjunct2, THEN conjunct2, THEN conjunct2, THEN conjunct2, THEN conjunct2,
        THEN conjunct1] run_ok_fields by simp
  have w6: "\<exists>b s'. valid_persistent_vod quiet_env run_ok (init ()) = (Inr b, s')"
    using t2 [THEN conjunct2, THEN conjunct2, THEN conjunct2, THEN conjunct2, THEN conjunct2,
        THEN conjunct2, THEN conjunct1] run_ok_fields quiet_env_copes by simp
  have w7: "\<exists>b. valid_in_game_time quiet_env run_1_003 = Inr b"
    using t3 [THEN conjunct2, THEN conjunct2, THEN conjunct2, THEN conjunct2, THEN conjunct1]
      float_times by simp
  have w8: "valid_in_game_time quiet_env run_huge_time = Inl OverflowError"
    using t4 [THEN conjunct2, THEN conjunct2, THEN conjunct2, THEN conjunct2, THEN conjunct1]
      float_times by simp
  have w9: "valid_persistent_vod quiet_env run_null_videos (init ()) = (Inl TypeError, init ())"
    using t5 [THEN conjunct2, THEN conjunct2, THEN conjunct2, THEN conjunct2, THEN conjunct2,
        THEN conjunct2, THEN conjunct2] n by simp
  show ?thesis
    using a n w1 w2 w3 w4 w5 w6 w7 w8 w9 quiet_env_copes float_times(3,6) by simp
qed

section \<open>Which submissions a cycle checks\<close>

text \<open>
  C1, as the claim states it, fails: in a first cycle (both lists empty) the listed run
  \<open>r1\<close> is checked at once, and rejected for its real time.
\<close>

theorem first_cycle_checks_counterexample:
  "fst cycle_first = Completed
   \<and> listed (new_events (init ()) (snd cycle_first)) = [JStr ''r1'', JStr ''r2'', JStr ''r1'']
   \<and> checks (new_events (init ()) (snd cycle_first)) = [JStr ''r1'', JStr ''r2'', JStr ''r1'']
   \<and> (JStr ''r1'', full_reason [ERROR_SUBMITTED_RTA], None)
        \<in> set (puts (new_events (init ()) (snd cycle_first)))"
  by (simp add: cycle_first_value state_first_def new_events_def init_def fetched_sources
        run_id_values)

text \<open>
  C1, amended. A submission id that is in neither list of the previous cycle is checked
  in the very cycle that lists it first (when that cycle runs through): its validity
  checks are started and ended, a reject call is issued for it if they found a fault,
  and the id is in the seen list handed on. It is an id of the previous seen list
  (\<^verbatim>\<open>ignore\<close>) that no cycle checks or rejects; so the following cycle skips the ids
  that this one has listed.
\<close>

theorem first_listing_is_checked:
  assumes "main env games ignore already_rejected s = (out, s')"
  shows "(\<forall>i \<in> set ignore.
            i \<notin> set (checks (new_events s s')) \<and> i \<notin> fst ` set (faults (new_events s s'))
            \<and> i \<notin> fst ` set (puts (new_events s s')))
       \<and> (out = Completed \<longrightarrow>
           (\<forall>i \<in> set (listed (new_events s s')).
              i \<notin> set ignore \<and> i \<notin> set already_rejected \<longrightarrow>
                i \<in> set (checks (new_events s s')) \<and> i \<in> fst ` set (faults (new_events s s'))
                \<and> i \<in> set (cache s')
                \<and> (\<forall>fs. (i, fs) \<in> set (faults (new_events s s')) \<and> fs \<noteq> []
                      \<longrightarrow> (i, full_reason fs, None) \<in> set (puts (new_events s s'))))
           \<and> (\<forall>out2 s''. main env games (cache s') (rejected s') s' = (out2, s'') \<longrightarrow>
                (\<forall>i \<in> set (listed (new_events s s')). i \<notin> set already_rejected \<longrightarrow>
                   i \<notin> set (checks (new_events s' s'')))))"
proof -
  let ?new = "new_events s s'"
  have ok: "trace_ok ignore already_rejected games s ?new"
    using main_any [OF assms] by simp
  have skip: "\<forall>i \<in> set ignore.
            i \<notin> set (checks ?new) \<and> i \<notin> fst ` set (faults ?new) \<and> i \<notin> fst ` set (puts ?new)"
    using ok unfolding trace_ok_def by blast
  have fin: "(\<forall>i \<in> set (listed ?new).
              i \<notin> set ignore \<and> i \<notin> set already_rejected \<longrightarrow>
                i \<in> set (checks ?new) \<and> i \<in> fst ` set (faults ?new) \<and> i \<in> set (cache s')
                \<and> (\<forall>fs. (i, fs) \<in> set (faults ?new) \<and> fs \<noteq> []
                      \<longrightarrow> (i, full_reason fs, None) \<in> set (puts ?new)))
           \<and> (\<forall>out2 s''. main env games (cache s') (rejected s') s' = (out2, s'') \<longrightarrow>
                (\<forall>i \<in> set (listed ?new). i \<notin> set already_rejected \<longrightarrow>
                   i \<notin> set (checks (new_events s' s''))))"
    if "out = Completed"
  proof -
    note c = main_completed [OF assms [unfolded that]]
    have a: "i \<in> set (checks ?new) \<and> i \<in> fst ` set (faults ?new) \<and> i \<in> set (cache s')
                \<and> (\<forall>fs. (i, fs) \<in> set (faults ?new) \<and> fs \<noteq> []
                      \<longrightarrow> (i, full_reason fs, None) \<in> set (puts ?new))"
      if i: "i \<in> set (listed ?new)" "i \<notin> set ignore" "i \<notin> set already_rejected" for i
    proof -
      have 1: "i \<in> set (checks ?new)" using c i by simp
      have "i \<in> set (map fst (faults ?new))" using c i by simp
      then have 2: "i \<in> fst ` set (faults ?new)" by simp
      have 3: "i \<in> set (cache s')" using c i by simp
      have 4: "(i, full_reason fs, None) \<in> set (puts ?new)"
        if "(i, fs) \<in> set (faults ?new)" "fs \<noteq> []" for fs
      proof -
        have "(i, fs) \<in> set (faulty (faults ?new))" using that by (simp add: faulty_def)
        then have "reject_call (i, fs) \<in> reject_call ` set (faulty (faults ?new))"
          by (rule imageI)
        then show ?thesis using c by (simp add: reject_call_def)
      qed
      from 1 2 3 4 show ?thesis by blast
    qed
    have b: "i \<notin> set (checks (new_events s' s''))"
      if m: "main env games (cache s') (rejected s') s' = (out2, s'')"
        and i: "i \<in> set (listed ?new)" "i \<notin> set already_rejected" for out2 s'' i
    proof -
      have "i \<in> set (cache s')" using c i by simp
      moreover have "trace_ok (cache s') (rejected s') games s' (new_events s' s'')"
        using main_any [OF m] by simp
      ultimately show ?thesis unfolding trace_ok_def by blast
    qed
    from a b show ?thesis by blast
  qed
  from skip fin show ?thesis by blast
qed

theorem first_listing_is_checked_witness:
  "main twice_env [celeste] [] [] (init ()) = (Completed, state_first)
   \<and> JStr ''r2'' \<in> set (listed (new_events (init ()) state_first))
   \<and> JStr ''r2'' \<in> set (checks (new_events (init ()) state_first))
   \<and> JStr ''r2'' \<in> set (cache state_first)
   \<and> main twice_env [celeste] (cache state_first) (rejected state_first) state_first
        = cycle_second
   \<and> JStr ''r2'' \<notin> set (checks (new_events state_first (snd cycle_second)))"
proof -
  have m: "main twice_env [celeste] [] [] (init ()) = (Completed, state_first)"
    using cycle_first_value by (simp add: cycle_first_def)
  have l: "JStr ''r2'' \<in> set (listed (new_events (init ()) state_first))"
    by (simp add: state_first_def new_events_def init_def fetched_sources run_id_values)
  have m2: "main twice_env [celeste] (cache state_first) (rejected state_first) state_first
        = (fst cycle_second, snd cycle_second)"
    by (simp add: cycle_second_def cycle_first_value)
  note t = conjunct2 [OF first_listing_is_checked [OF m], THEN mp, OF refl]
  note b = conjunct1 [OF t, THEN bspec, OF l]
  note c = conjunct2 [OF t, THEN spec, THEN spec, THEN mp, OF m2, THEN bspec, OF l]
  have b': "JStr ''r2'' \<in> set (checks (new_events (init ()) state_first))
      \<and> JStr ''r2'' \<in> set (cache state_first)"
    using b by simp
  have c': "JStr ''r2'' \<notin> set (checks (new_events state_first (snd cycle_second)))"
    using c by simp
  from m l m2 b' c' show ?thesis by simp
qed

text \<open>
  C2. A submission id of the previous rejected list (\<^verbatim>\<open>already_rejected\<close>): whatever the
  source lists and however the cycle ends, its validity checks are neither started nor
  ended and no reject call is issued for it; and when the source lists it and
  \<^verbatim>\<open>main\<close> returns, the id is in the rejected list handed to the next cycle.
\<close>

theorem rejected_ids_skipped_and_kept:
  assumes "main env games ignore already_rejected s = (out, s')"
    and "i \<in> set already_rejected"
  shows "i \<notin> set (checks (new_events s s')) \<and> i \<notin> fst ` set (faults (new_events s s'))
       \<and> i \<notin> fst ` set (puts (new_events s s'))
       \<and> ((\<forall>e. out \<noteq> Crashed e) \<and> i \<in> set (listed (new_events s s'))
            \<longrightarrow> i \<in> set (rejected s'))"
proof -
  let ?new = "new_events s s'"
  have ok: "trace_ok ignore already_rejected games s ?new"
    using main_any [OF assms(1)] by simp
  have skip: "i \<notin> set (checks ?new) \<and> i \<notin> fst ` set (faults ?new) \<and> i \<notin> fst ` set (puts ?new)"
    using ok assms(2) unfolding trace_ok_def by blast
  have kept: "i \<in> set (rejected s')" if "\<forall>e. out \<noteq> Crashed e" "i \<in> set (listed ?new)"
  proof (cases out)
    case Completed
    from main_completed [OF assms(1) [unfolded Completed]]
    show ?thesis using that(2) assms(2) by simp
  next
    case (Aborted e)
    from main_aborted [OF assms(1) [unfolded Aborted]]
    show ?thesis using assms(2) by blast
  next
    case (Crashed e)
    then show ?thesis using that(1) by simp
  qed
  from skip kept show ?thesis by blast
qed

theorem rejected_ids_skipped_and_kept_witness:
  "main rta_env [celeste] [] [JStr ''r1''] (init ()) = cycle_relisted
   \<and> JStr ''r1'' \<in> set [JStr ''r1'']
   \<and> (\<forall>e. fst cycle_relisted \<noteq> Crashed e)
   \<and> JStr ''r1'' \<in> set (listed (new_events (init ()) (snd cycle_relisted)))
   \<and> JStr ''r1'' \<notin> set (checks (new_events (init ()) (snd cycle_relisted)))
   \<and> JStr ''r1'' \<notin> fst ` set (faults (new_events (init ()) (snd cycle_relisted)))
   \<and> JStr ''r1'' \<notin> fst ` set (puts (new_events (init ()) (snd cycle_relisted)))
   \<and> JStr ''r1'' \<in> set (rejected (snd cycle_relisted))"
proof -
  have m: "main rta_env [celeste] [] [JStr ''r1''] (init ())
      = (fst cycle_relisted, snd cycle_relisted)"
    by (simp add: cycle_relisted_def)
  have i: "JStr ''r1'' \<in> set [JStr ''r1'']" by simp
  have o: "\<forall>e. fst cycle_relisted \<noteq> Crashed e" by (simp add: cycle_relisted_value)
  have l: "JStr ''r1'' \<in> set (listed (new_events (init ()) (snd cycle_relisted)))"
    by (simp add: cycle_relisted_value new_events_def init_def fetched_sources run_id_values)
  note t = rejected_ids_skipped_and_kept [OF m i]
  note t4 = t [THEN conjunct2, THEN conjunct2, THEN conjunct2, THEN mp, OF conjI, OF o l]
  show ?thesis
    using m i o l t [THEN conjunct1] t [THEN conjunct2, THEN conjunct1]
      t [THEN conjunct2, THEN conjunct2, THEN conjunct1] t4
    by (simp del: set_simps)
qed

section \<open>Duplicates within one cycle\<close>

lemma count_list_filter:
  "count_list (filter P xs) i = (if P i then count_list xs i else 0)"
  by (induction xs) auto

text \<open>
  C10. In a cycle that runs through, for a submission id that is in neither list of the
  previous cycle: its validity checks are started, and ended, once for each time the
  source listed it, and one reject call is issued for each of these checks that found
  a fault. So the same id listed twice in one fetched list is checked twice and, if
  faulty, rejected twice.
\<close>

theorem duplicates_processed_separately:
  assumes "main env games ignore already_rejected s = (Completed, s')"
    and "i \<notin> set ignore" and "i \<notin> set already_rejected"
  shows "count_list (checks (new_events s s')) i = count_list (listed (new_events s s')) i
       \<and> count_list (map fst (faults (new_events s s'))) i
            = count_list (listed (new_events s s')) i
       \<and> puts (new_events s s') = map reject_call (faulty (faults (new_events s s')))
       \<and> count_list (map fst (puts (new_events s s'))) i
            = count_list (map fst (faulty (faults (new_events s s')))) i"
proof -
  note c = main_completed [OF assms(1)]
  have fst_call: "fst \<circ> reject_call = fst"
    by (rule ext) (simp add: reject_call_def)
  show ?thesis
    using c assms(2,3) by (simp add: count_list_filter fst_call)
qed

theorem duplicates_processed_separately_witness:
  "main twice_env [celeste] [] [] (init ()) = (Completed, state_first)
   \<and> JStr ''r1'' \<notin> set []
   \<and> count_list (listed (new_events (init ()) state_first)) (JStr ''r1'') = 2
   \<and> count_list (checks (new_events (init ()) state_first)) (JStr ''r1'') = 2
   \<and> count_list (map fst (faults (new_events (init ()) state_first))) (JStr ''r1'') = 2
   \<and> count_list (map fst (faulty (faults (new_events (init ()) state_first)))) (JStr ''r1'') = 2
   \<and> count_list (map fst (puts (new_events (init ()) state_first))) (JStr ''r1'') = 2"
proof -
  have m: "main twice_env [celeste] [] [] (init ()) = (Completed, state_first)"
    using cycle_first_value by (simp add: cycle_first_def)
  have n: "JStr ''r1'' \<notin> set []" by simp
  have l: "count_list (listed (new_events (init ()) state_first)) (JStr ''r1'') = 2"
    by (simp add: state_first_def new_events_def init_def fetched_sources run_id_values)
  have f: "count_list (map fst (faulty (faults (new_events (init ()) state_first)))) (JStr ''r1'') = 2"
    by (simp add: state_first_def new_events_def init_def faulty_def)
  note t = duplicates_processed_separately [OF m n n]
  show ?thesis
    using m l f t [THEN conjunct1] t [THEN conjunct2, THEN conjunct1]
      t [THEN conjunct2, THEN conjunct2, THEN conjunct2]
    by simp
qed

section \<open>The state handed to the next cycle\<close>

text \<open>
  C6, as the claim states it, fails: a cycle that runs through, and in which the source
  lists nothing, hands on two empty lists; the ids of the previous lists are dropped.
\<close>

theorem completed_cycle_forgets_counterexample:
  "cycle_forgets = main quiet_env [celeste] [JStr ''old''] [JStr ''gone''] (init ())
   \<and> fst cycle_forgets = Completed
   \<and> cache (snd cycle_forgets) = []
   \<and> rejected (snd cycle_forgets) = []"
proof -
  have a: "cycle_forgets = main quiet_env [celeste] [JStr ''old''] [JStr ''gone''] (init ())"
    by (simp only: cycle_forgets_def)
  have b: "fst cycle_forgets = Completed" "cache (snd cycle_forgets) = []"
    "rejected (snd cycle_forgets) = []"
    by (simp_all add: cycle_forgets_value)
  show ?thesis by (intro conjI a b)
qed

text \<open>
  C6, amended. Only a cycle that one of the two handlers aborted hands on a union with
  the previous lists: then every id of the previous seen and rejected lists is in the
  new ones. A cycle that runs through hands on what it gathered itself: the seen list is
  the listed ids that are not in the previous rejected list, and the rejected list holds
  the listed ids that are in the previous rejected list and the ids of the runs found
  faulty, each of which it rejected; an id of the previous lists that the source does
  not list again is dropped.
\<close>

theorem state_handed_on:
  assumes "main env games ignore already_rejected s = (out, s')"
  shows "(\<forall>e. out = Aborted e \<longrightarrow>
            set ignore \<subseteq> set (cache s') \<and> set already_rejected \<subseteq> set (rejected s'))
       \<and> (out = Completed \<longrightarrow>
            cache s' = [i \<leftarrow> listed (new_events s s'). i \<notin> set already_rejected]
            \<and> set (rejected s') =
                 {i \<in> set (listed (new_events s s')). i \<in> set already_rejected}
                 \<union> fst ` set (faulty (faults (new_events s s')))
            \<and> puts (new_events s s') = map reject_call (faulty (faults (new_events s s')))
            \<and> (\<forall>i. i \<notin> set (listed (new_events s s'))
                  \<longrightarrow> i \<notin> set (cache s') \<and> i \<notin> set (rejected s')))"
proof -
  let ?new = "new_events s s'"
  have ab: "set ignore \<subseteq> set (cache s') \<and> set already_rejected \<subseteq> set (rejected s')"
    if "out = Aborted e" for e
    using main_aborted [OF assms [unfolded that]] by simp
  have co: "cache s' = [i \<leftarrow> listed ?new. i \<notin> set already_rejected]
            \<and> set (rejected s') =
                 {i \<in> set (listed ?new). i \<in> set already_rejected}
                 \<union> fst ` set (faulty (faults ?new))
            \<and> puts ?new = map reject_call (faulty (faults ?new))
            \<and> (\<forall>i. i \<notin> set (listed ?new) \<longrightarrow> i \<notin> set (cache s') \<and> i \<notin> set (rejected s'))"
    if "out = Completed"
  proof -
    note c = main_completed [OF assms [unfolded that]]
    have sub: "fst ` set (faulty (faults ?new)) \<subseteq> set (listed ?new)"
    proof -
      have "fst ` set (faulty (faults ?new)) \<subseteq> set (map fst (faults ?new))"
        by (auto simp: faulty_def)
      also have "\<dots> \<subseteq> set (listed ?new)" using c by simp
      finally show ?thesis .
    qed
    have "i \<notin> set (cache s') \<and> i \<notin> set (rejected s')" if "i \<notin> set (listed ?new)" for i
      using c sub that by auto
    then show ?thesis using c by blast
  qed
  from ab co show ?thesis by blast
qed

theorem state_handed_on_witness:
  "main down_env [celeste, other_game, celeste] [JStr ''old''] [JStr ''gone''] (init ())
     = (Aborted HTTPError, snd cycle_down)
   \<and> set [JStr ''old''] \<subseteq> set (cache (snd cycle_down))
   \<and> set [JStr ''gone''] \<subseteq> set (rejected (snd cycle_down))
   \<and> main twice_env [celeste] [] [] (init ()) = (Completed, state_first)
   \<and> cache state_first = [i \<leftarrow> listed (new_events (init ()) state_first). i \<notin> set []]
   \<and> JStr ''old'' \<notin> set (listed (new_events (init ()) state_first))
   \<and> JStr ''old'' \<notin> set (cache state_first)"
proof -
  have m1: "main down_env [celeste, other_game, celeste] [JStr ''old''] [JStr ''gone''] (init ())
     = (Aborted HTTPError, snd cycle_down)"
    using cycle_down_value by (simp add: cycle_down_def)
  have m2: "main twice_env [celeste] [] [] (init ()) = (Completed, state_first)"
    using cycle_first_value by (simp add: cycle_first_def)
  have l: "JStr ''old'' \<notin> set (listed (new_events (init ()) state_first))"
    by (simp add: state_first_def new_events_def init_def fetched_sources run_id_values)
  note a = state_handed_on [OF m1, THEN conjunct1, THEN spec, THEN mp, OF refl]
  note b = state_handed_on [OF m2, THEN conjunct2, THEN mp, OF refl]
  note b3 = b [THEN conjunct2, THEN conjunct2, THEN conjunct2, THEN spec, THEN mp, OF l]
  show ?thesis
    using m1 m2 l a b [THEN conjunct1] b3 by (simp del: set_simps)
qed

section \<open>A failing request\<close>

text \<open>
  What the two handlers do. Let the cycle have begun, the games \<open>gs1\<close> have gone
  through, and the next game \<open>g\<close> end with \<^verbatim>\<open>HTTPError\<close> or a \<^verbatim>\<open>ConnectionError\<close> in the
  state \<open>s2\<close>. Then \<^verbatim>\<open>main\<close> returns, aborted, in a state that differs from \<open>s2\<close> only
  in this: one line is printed, the seen list is the union of the previous seen list
  with the ids seen so far, the rejected list is the union of the previous rejected
  list with the ids rejected so far, and the counter has advanced. The world is the one
  of \<open>s2\<close> and the trace has no further call: the games \<open>gs2\<close> are not processed, \<open>g\<close> is
  not tried again, and what was rejected stays rejected.
\<close>

theorem abort_keeps_state:
  assumes "refresh_oauth env (s\<lparr>cache := [], rejected := []\<rparr>) = (None, s0)"
    and "games_loop env ignore already_rejected gs1 s0 = (Completed, s1)"
    and "game_body env ignore already_rejected g s1 = (Inl e, s2)"
    and "e = HTTPError \<or> e = ConnectionError"
  shows "\<exists>s3. main env (gs1 @ g # gs2) ignore already_rejected s = (Aborted e, s3)
       \<and> set (cache s3) = set ignore \<union> set (cache s2)
       \<and> set (rejected s3) = set already_rejected \<union> set (rejected s2)
       \<and> world s3 = world s2
       \<and> events s3 = events s2
            @ [Print (if e = HTTPError then HTTPErrorLine else ConnectionErrorLine)]
       \<and> q_counter s3 = (q_counter s + 1) mod length QUERY_TABLE"
proof -
  let ?line = "if e = HTTPError then HTTPErrorLine else ConnectionErrorLine"
  let ?s3 = "abort_cycle ?line ignore already_rejected s2"
  have step: "games_loop env ignore already_rejected (g # gs2) s1 = (Aborted e, ?s3)"
    using assms(3,4) by auto
  have loop: "games_loop env ignore already_rejected (gs1 @ g # gs2) s0 = (Aborted e, ?s3)"
    using assms(2) step by (simp add: games_loop_append)
  have m: "main env (gs1 @ g # gs2) ignore already_rejected s
      = (Aborted e, ?s3\<lparr>q_counter := (q_counter ?s3 + 1) mod length QUERY_TABLE\<rparr>)"
    using assms(1) loop by (simp add: main_def)
  have q: "q_counter s2 = q_counter s"
    using quiet_stepD(5) [OF refresh_oauth_quiet [OF assms(1)]]
      games_loop_any [OF assms(2)] game_body_any [OF assms(3)] by simp
  show ?thesis
    using m q by (auto simp: abort_cycle_facts)
qed

lemma state_down_steps:
  "refresh_oauth down_env (init ()\<lparr>cache := [], rejected := []\<rparr>) = (None, state_down0)"
  "games_loop down_env [JStr ''old''] [JStr ''gone''] [celeste] state_down0
     = (Completed, state_down1)"
  "game_body down_env [JStr ''old''] [JStr ''gone''] other_game state_down1
     = (Inl HTTPError, state_down2)"
  by (simp_all add: state_down0_def state_down1_def state_down2_def down_env_def cycle_defs)

theorem abort_keeps_state_witness:
  "refresh_oauth down_env (init ()\<lparr>cache := [], rejected := []\<rparr>) = (None, state_down0)
   \<and> games_loop down_env [JStr ''old''] [JStr ''gone''] [celeste] state_down0
        = (Completed, state_down1)
   \<and> game_body down_env [JStr ''old''] [JStr ''gone''] other_game state_down1
        = (Inl HTTPError, state_down2)
   \<and> (\<exists>s3. main down_env ([celeste] @ other_game # [celeste]) [JStr ''old''] [JStr ''gone'']
              (init ()) = (Aborted HTTPError, s3)
         \<and> set (cache s3) = set [JStr ''old''] \<union> set (cache state_down2)
         \<and> set (rejected s3) = set [JStr ''gone''] \<union> set (rejected state_down2)
         \<and> world s3 = world state_down2
         \<and> events s3 = events state_down2 @ [Print HTTPErrorLine]
         \<and> q_counter s3 = (q_counter (init ()) + 1) mod length QUERY_TABLE)"
proof -
  have e: "HTTPError = HTTPError \<or> HTTPError = ConnectionError" by simp
  note t = abort_keeps_state [OF state_down_steps e, of "[celeste]"]
  show ?thesis using state_down_steps t by simp
qed

text \<open>
  C5. The failing input: the source cannot be reached for the second of three games, so
  that \<^verbatim>\<open>urlopen\<close> raises \<^verbatim>\<open>URLError\<close>. Neither handler catches it: \<^verbatim>\<open>main\<close> is not
  aborted but left by the exception. The reject call of the first game has been issued,
  the counter has not advanced, and the chain of cycles ends here, so that the ids seen
  and rejected so far, and those of the previous lists, are handed to no next cycle.
\<close>

theorem refused_connection_crashes:
  "urlopen_get refused_env (Request ''other'' ''desc'' ''game'' 100) () = (Inl URLError, ())
   \<and> main refused_env [celeste, other_game, celeste] [JStr ''old''] [JStr ''gone''] (init ())
        = (Crashed URLError, state_refused)
   \<and> puts (new_events (init ()) state_refused)
        = [(JStr ''r1'', full_reason [ERROR_SUBMITTED_RTA], None)]
   \<and> q_counter state_refused = q_counter (init ())
   \<and> cycles 1 refused_env [celeste, other_game, celeste] [JStr ''old''] [JStr ''gone''] (init ())
        = (Some URLError, state_refused)"
proof -
  have a: "urlopen_get refused_env (Request ''other'' ''desc'' ''game'' 100) ()
      = (Inl URLError, ())"
    by (simp add: refused_env_def fixed_env_calls source_refused_def)
  have m: "main refused_env [celeste, other_game, celeste] [JStr ''old''] [JStr ''gone''] (init ())
        = (Crashed URLError, state_refused)"
    using cycle_refused_value by (simp add: cycle_refused_def)
  have p: "puts (new_events (init ()) state_refused)
        = [(JStr ''r1'', full_reason [ERROR_SUBMITTED_RTA], None)]"
    "q_counter state_refused = q_counter (init ())"
    by (simp_all add: state_refused_def new_events_def init_def)
  have c: "cycles 1 refused_env [celeste, other_game, celeste] [JStr ''old''] [JStr ''gone'']
      (init ()) = (Some URLError, state_refused)"
    unfolding One_nat_def by (simp add: m)
  show ?thesis by (intro conjI a m p c)
qed

section \<open>The rotation of the query\<close>

lemma QUERY_TABLE_facts: "length QUERY_TABLE = 10" "distinct QUERY_TABLE"
  by (simp_all add: QUERY_TABLE_def)

lemma fetch_runs_request:
  "\<forall>req \<in> set (gets (new_events s (snd (fetch_runs env g s)))).
     req_direction req = rand_d (fst (random53 env (world s)))
     \<and> req_max req = randint_100_200 (fst (randbelow env 101 (snd (random53 env (world s)))))"
proof (cases "query_field (q_counter s)")
  case (Inl e)
  then have "events (snd (fetch_runs env g s)) = events s @ []"
    by (simp add: fetch_runs_def Let_def)
  from extendsI [OF this] show ?thesis by simp
next
  case (Inr field)
  then obtain req res
    where "events (snd (fetch_runs env g s)) = events s @ [Get req res]"
      and "req_direction req = rand_d (fst (random53 env (world s)))"
      and "req_max req = randint_100_200 (fst (randbelow env 101 (snd (random53 env (world s)))))"
    by (simp add: fetch_runs_def Let_def)
  then show ?thesis using extendsI [of "snd (fetch_runs env g s)" s "[Get req res]"] by simp
qed

lemma cycles_counter:
  "cycles n env games ig ar s = (None, s') \<Longrightarrow> q_counter s < length QUERY_TABLE
     \<Longrightarrow> q_counter s' = (q_counter s + n) mod length QUERY_TABLE"
proof (induction n arbitrary: ig ar s)
  case 0
  then show ?case by simp
next
  case (Suc n)
  obtain out s1 where m: "main env games ig ar s = (out, s1)" by fastforce
  have nc: "\<forall>e. out \<noteq> Crashed e" using Suc.prems(1) m by (cases out) simp_all
  then have run: "cycles n env games (cache s1) (rejected s1) s1 = (None, s')"
    using Suc.prems(1) m by (cases out) simp_all
  have q1: "q_counter s1 = (q_counter s + 1) mod length QUERY_TABLE"
    using main_any [OF m] nc by simp
  then have "q_counter s1 < length QUERY_TABLE" by (simp add: QUERY_TABLE_facts)
  from Suc.IH [OF run this] have "q_counter s' = ((q_counter s + 1) mod 10 + n) mod 10"
    using q1 by (simp add: QUERY_TABLE_facts)
  also have "\<dots> = (q_counter s + Suc n) mod 10" by presburger
  finally show ?case by (simp add: QUERY_TABLE_facts)
qed

lemma rand_d_desc: "rand_d k = ''desc'' \<longleftrightarrow> k mod 2 ^ 53 < 2 ^ 52"
  by (simp add: rand_d_def)

lemma rand_d_asc: "rand_d k = ''asc'' \<longleftrightarrow> \<not> k mod 2 ^ 53 < 2 ^ 52"
  by (simp add: rand_d_def)

lemma draw_mod: "0 \<le> k \<Longrightarrow> k < 2 ^ 53 \<Longrightarrow> k mod 2 ^ 53 = (k :: int)"
  by (rule mod_pos_pos_trivial)

lemma desc_draws: "{k \<in> {0..<2 ^ 53}. rand_d k = ''desc''} = {0..<2 ^ 52}"
proof (rule set_eqI)
  fix k :: int
  show "k \<in> {k \<in> {0..<2 ^ 53}. rand_d k = ''desc''} \<longleftrightarrow> k \<in> {0..<2 ^ 52}"
  proof (cases "0 \<le> k \<and> k < 2 ^ 53")
    case True
    then show ?thesis using draw_mod [of k] by (simp add: rand_d_desc)
  next
    case False
    then show ?thesis by auto
  qed
qed

lemma asc_draws: "{k \<in> {0..<2 ^ 53}. rand_d k = ''asc''} = {2 ^ 52..<2 ^ 53}"
proof (rule set_eqI)
  fix k :: int
  show "k \<in> {k \<in> {0..<2 ^ 53}. rand_d k = ''asc''} \<longleftrightarrow> k \<in> {2 ^ 52..<2 ^ 53}"
  proof (cases "0 \<le> k \<and> k < 2 ^ 53")
    case True
    then show ?thesis using draw_mod [of k] by (simp add: rand_d_asc not_less)
  next
    case False
    then show ?thesis by auto
  qed
qed

lemma draw_counts:
  "card {k \<in> {0..<2 ^ 53}. rand_d k = ''desc''} = 2 ^ 52"
  "card {k \<in> {0..<2 ^ 53}. rand_d k = ''asc''} = 2 ^ 52"
proof -
  have "card {k \<in> {0..<2 ^ 53}. rand_d k = ''desc''} = card {0..<(2 ^ 52 :: int)}"
    by (simp only: desc_draws)
  then show "card {k \<in> {0..<2 ^ 53}. rand_d k = ''desc''} = 2 ^ 52" by simp
  have "card {k \<in> {0..<2 ^ 53}. rand_d k = ''asc''} = card {(2 ^ 52 :: int)..<2 ^ 53}"
    by (simp only: asc_draws)
  then show "card {k \<in> {0..<2 ^ 53}. rand_d k = ''asc''} = 2 ^ 52" by simp
qed

lemma randint_bij: "bij_betw randint_100_200 {0..<101} {100..200}"
proof (rule bij_betw_byWitness [where f' = "\<lambda>n :: int. n - 100"])
  show "\<forall>j\<in>{0..<101}. randint_100_200 j - 100 = j" by (simp add: randint_100_200_def)
  show "\<forall>n\<in>{100..200}. randint_100_200 (n - 100) = n" by (simp add: randint_100_200_def)
  show "randint_100_200 ` {0..<101} \<subseteq> {100..200}"
    by (auto simp: randint_100_200_def)
  show "(\<lambda>n :: int. n - 100) ` {100..200} \<subseteq> {0..<101}" by auto
qed


lemma mod10_below_20:
  assumes "x < 20"
  shows "x mod 10 = (if x < 10 then x else x - (10 :: nat))"
proof (cases "x < 10")
  case True
  then show ?thesis by simp
next
  case False
  then have "x mod 10 = (x - 10) mod 10" by (simp add: le_mod_geq)
  also have "\<dots> = x - 10" using assms by simp
  finally show ?thesis using False by simp
qed

lemma mod10_cancel:
  assumes "(q + m) mod 10 = (q + n) mod (10 :: nat)" "m < 10" "n < 10"
  shows "m = n"
proof -
  define r where "r = q mod 10"
  have r: "r < 10" by (simp add: r_def)
  have "(r + m) mod 10 = (r + n) mod 10"
    using assms(1) by (simp add: r_def mod_add_left_eq)
  then have "(if r + m < 10 then r + m else r + m - 10)
      = (if r + n < 10 then r + n else r + n - 10)"
    using mod10_below_20 [of "r + m"] mod10_below_20 [of "r + n"] r assms(2,3) by simp
  then show ?thesis using r assms(2,3) by (simp split: if_splits)
qed

lemma rotation_distinct:
  assumes "m < 10" "n < 10"
    "QUERY_TABLE ! ((q + m) mod 10) = QUERY_TABLE ! ((q + n) mod 10)"
  shows "m = n"
proof -
  have idx: "(q + m) mod 10 < length QUERY_TABLE" "(q + n) mod 10 < length QUERY_TABLE"
    by (simp_all add: QUERY_TABLE_facts)
  have "(q + m) mod 10 = (q + n) mod 10"
    using nth_eq_iff_index_eq [OF QUERY_TABLE_facts(2) idx] assms(3) by blast
  then show ?thesis using assms(1,2) by (rule mod10_cancel)
qed

text \<open>
  C9. The table has 10 distinct sort fields. Every request of a cycle, whatever the
  number of games, asks for the field at the counter's place at the start of the cycle,
  with a direction that is \<^verbatim>\<open>desc\<close> or \<^verbatim>\<open>asc\<close> and a page size from 100 to 200; when
  \<^verbatim>\<open>main\<close> returns, the counter has advanced by one modulo 10, so that \<open>n\<close> cycles
  advance it by \<open>n\<close> modulo 10 and ten cycles in a row use ten different fields. The
  direction is \<^verbatim>\<open>desc\<close> exactly for the draws of \<^verbatim>\<open>random()\<close> below one half, which are
  half of the \<open>2^53\<close> equally likely draws, and the page size is \<open>100 + j\<close> for the draw
  \<open>j\<close> of the 101 equally likely draws of \<^verbatim>\<open>randint\<close>: one draw for each size.
\<close>

theorem query_rotation:
  "length QUERY_TABLE = 10 \<and> distinct QUERY_TABLE
   \<and> (main env games ignore already_rejected s = (out, s') \<longrightarrow>
        (\<forall>req \<in> set (gets (new_events s s')).
           q_counter s < 10 \<and> req_orderby req = QUERY_TABLE ! q_counter s
           \<and> (req_direction req = ''desc'' \<or> req_direction req = ''asc'')
           \<and> 100 \<le> req_max req \<and> req_max req \<le> 200)
        \<and> ((\<forall>e. out \<noteq> Crashed e) \<longrightarrow> q_counter s' = (q_counter s + 1) mod 10))
   \<and> (cycles n env games ignore already_rejected s = (None, s') \<and> q_counter s < 10
        \<longrightarrow> q_counter s' = (q_counter s + n) mod 10)
   \<and> (\<forall>m < 10. \<forall>m' < 10.
         QUERY_TABLE ! ((q + m) mod 10) = QUERY_TABLE ! ((q + m') mod 10) \<longrightarrow> m = m')
   \<and> (\<forall>req \<in> set (gets (new_events s (snd (fetch_runs env g s)))).
         req_direction req = rand_d (fst (random53 env (world s)))
         \<and> req_max req = randint_100_200 (fst (randbelow env 101 (snd (random53 env (world s))))))
   \<and> card {k \<in> {0..<2 ^ 53}. rand_d k = ''desc''} = 2 ^ 52
   \<and> card {k \<in> {0..<2 ^ 53}. rand_d k = ''asc''} = 2 ^ 52
   \<and> bij_betw randint_100_200 {0..<101} {100..200}"
proof -
  have cyc: "main env games ignore already_rejected s = (out, s') \<longrightarrow>
        (\<forall>req \<in> set (gets (new_events s s')).
           q_counter s < 10 \<and> req_orderby req = QUERY_TABLE ! q_counter s
           \<and> (req_direction req = ''desc'' \<or> req_direction req = ''asc'')
           \<and> 100 \<le> req_max req \<and> req_max req \<le> 200)
        \<and> ((\<forall>e. out \<noteq> Crashed e) \<longrightarrow> q_counter s' = (q_counter s + 1) mod 10)"
  proof
    assume m: "main env games ignore already_rejected s = (out, s')"
    note a = main_any [OF m]
    have "\<forall>req \<in> set (gets (new_events s s')). \<exists>g \<in> set games. good_request s g req"
      using a by (simp add: trace_ok_def)
    then have "\<forall>req \<in> set (gets (new_events s s')).
           q_counter s < 10 \<and> req_orderby req = QUERY_TABLE ! q_counter s
           \<and> (req_direction req = ''desc'' \<or> req_direction req = ''asc'')
           \<and> 100 \<le> req_max req \<and> req_max req \<le> 200"
      unfolding good_request_def QUERY_TABLE_facts(1) by blast
    then show "(\<forall>req \<in> set (gets (new_events s s')).
           q_counter s < 10 \<and> req_orderby req = QUERY_TABLE ! q_counter s
           \<and> (req_direction req = ''desc'' \<or> req_direction req = ''asc'')
           \<and> 100 \<le> req_max req \<and> req_max req \<le> 200)
        \<and> ((\<forall>e. out \<noteq> Crashed e) \<longrightarrow> q_counter s' = (q_counter s + 1) mod 10)"
      using a by (simp add: QUERY_TABLE_facts)
  qed
  have many: "cycles n env games ignore already_rejected s = (None, s') \<and> q_counter s < 10
        \<longrightarrow> q_counter s' = (q_counter s + n) mod 10"
    using cycles_counter [of n env games ignore already_rejected s s']
    by (simp add: QUERY_TABLE_facts)
  have rot: "\<forall>m < 10. \<forall>m' < 10.
         QUERY_TABLE ! ((q + m) mod 10) = QUERY_TABLE ! ((q + m') mod 10) \<longrightarrow> m = m'"
    using rotation_distinct by blast
  show ?thesis
    by (intro conjI QUERY_TABLE_facts cyc many rot fetch_runs_request draw_counts randint_bij)
qed

theorem query_rotation_witness:
  "main twice_env [celeste] (cache state_first) (rejected state_first) state_first
     = (fst cycle_second, snd cycle_second)
   \<and> (\<forall>e. fst cycle_second \<noteq> Crashed e)
   \<and> gets (new_events state_first (snd cycle_second))
        = [Request ''celeste'' ''desc'' ''category'' 100]
   \<and> q_counter state_first = 1 \<and> QUERY_TABLE ! 1 = ''category''
   \<and> q_counter (snd cycle_second) = (q_counter state_first + 1) mod 10
   \<and> cycles 2 twice_env [celeste] [] [] (init ()) = (None, snd cycle_second)
   \<and> q_counter (init ()) < 10
   \<and> q_counter (snd cycle_second) = (q_counter (init ()) + 2) mod 10
   \<and> (3 < (10 :: nat) \<and> 7 < (10 :: nat)
        \<and> QUERY_TABLE ! ((8 + 3) mod 10) \<noteq> QUERY_TABLE ! ((8 + 7) mod 10))"
proof -
  have m: "main twice_env [celeste] (cache state_first) (rejected state_first) state_first
     = (fst cycle_second, snd cycle_second)"
    by (simp add: cycle_second_def cycle_first_value)
  have o: "\<forall>e. fst cycle_second \<noteq> Crashed e" by (simp add: cycle_second_value)
  have g: "gets (new_events state_first (snd cycle_second))
        = [Request ''celeste'' ''desc'' ''category'' 100]"
    by (simp add: cycle_second_value new_events_def)
  have q: "q_counter state_first = 1" "QUERY_TABLE ! 1 = ''category''" "q_counter (init ()) < 10"
    by (simp_all add: state_first_def QUERY_TABLE_def init_def)
  have c: "cycles 2 twice_env [celeste] [] [] (init ()) = (None, snd cycle_second)"
    using cycle_first_value cycle_second_value
    by (simp add: numeral_2_eq_2 cycle_first_def cycle_second_def)
  have d: "QUERY_TABLE ! ((8 + 3) mod 10) \<noteq> QUERY_TABLE ! ((8 + 7) mod 10)"
    by (simp add: QUERY_TABLE_def)
  note t1 = query_rotation [of twice_env "[celeste]" "cache state_first" "rejected state_first"
      state_first "fst cycle_second" "snd cycle_second"]
  note t2 = query_rotation [of twice_env "[celeste]" "[]" "[]" "init ()" _ "snd cycle_second" 2]
  note a = t1 [THEN conjunct2, THEN conjunct2, THEN conjunct1, THEN mp, OF m,
      THEN conjunct2, THEN mp, OF o]
  note b = t2 [THEN conjunct2, THEN conjunct2, THEN conjunct2, THEN conjunct1, THEN mp,
      OF conjI, OF c q(3)]
  show ?thesis using m o g q c d a b by simp
qed

end
